theory Spec2Isabelle
  imports Main "HOL-Library.Word" "HOL-Library.Sublist" "HOL-Library.AList"
begin

unbundle bit_operations_syntax

section \<open>Byte strings\<close>

text \<open>
  Go's \<^verbatim>\<open>[]byte\<close> and \<^verbatim>\<open>string\<close> are byte sequences; they are modelled as
  \<^typ>\<open>string\<close> (a list of 8-bit characters). \<open>byte c\<close> is the numeric value of a byte.
\<close>

definition byte :: "char \<Rightarrow> nat" where
  "byte c = of_char c"

text \<open>\<^verbatim>\<open>const rSeparator = '/'\<close> and \<^verbatim>\<open>utf8.RuneSelf = 0x80\<close>.\<close>

definition rSeparator :: char where
  "rSeparator = CHR ''/''"

definition RuneSelf :: nat where
  "RuneSelf = 128"

text \<open>\<^verbatim>\<open>const Levels int = 3\<close>.\<close>

definition Levels :: nat where
  "Levels = 3"

text \<open>
  \<^verbatim>\<open>bytes.IndexRune(s, r)\<close> for a rune below \<open>RuneSelf\<close>: the index of the first byte
  equal to \<open>r\<close>; Go's \<open>-1\<close> is \<open>None\<close>.
\<close>

fun IndexRune :: "string \<Rightarrow> char \<Rightarrow> nat option" where
  "IndexRune [] r = None"
| "IndexRune (c # cs) r =
     (if c = r then Some 0
      else (case IndexRune cs r of None \<Rightarrow> None | Some i \<Rightarrow> Some (Suc i)))"

text \<open>\<^verbatim>\<open>bytes.Count(s, Separator)\<close> with the one-byte separator \<^verbatim>\<open>"/"\<close>.\<close>

definition Count :: "string \<Rightarrow> char \<Rightarrow> nat" where
  "Count s c = length (filter (\<lambda>x. x = c) s)"

text \<open>
  \<^verbatim>\<open>utf8.Valid\<close> of the Go standard library: the bytes are a sequence of well-formed
  UTF-8 encodings. \<open>acceptRange b\<close> gives, for a lead byte \<open>b\<close> at or above \<open>RuneSelf\<close>,
  the length of the encoding and the range allowed for its second byte.
\<close>

definition acceptRange :: "nat \<Rightarrow> (nat \<times> nat \<times> nat) option" where
  "acceptRange b =
     (if 0xC2 \<le> b \<and> b \<le> 0xDF then Some (2, 0x80, 0xBF)
      else if b = 0xE0 then Some (3, 0xA0, 0xBF)
      else if 0xE1 \<le> b \<and> b \<le> 0xEC then Some (3, 0x80, 0xBF)
      else if b = 0xED then Some (3, 0x80, 0x9F)
      else if 0xEE \<le> b \<and> b \<le> 0xEF then Some (3, 0x80, 0xBF)
      else if b = 0xF0 then Some (4, 0x90, 0xBF)
      else if 0xF1 \<le> b \<and> b \<le> 0xF3 then Some (4, 0x80, 0xBF)
      else if b = 0xF4 then Some (4, 0x80, 0x8F)
      else None)"

definition continuation :: "char \<Rightarrow> bool" where
  "continuation c = (0x80 \<le> byte c \<and> byte c \<le> 0xBF)"

fun utf8_Valid :: "string \<Rightarrow> bool" where
  "utf8_Valid [] = True"
| "utf8_Valid (c # cs) =
     (if byte c < RuneSelf then utf8_Valid cs
      else (case acceptRange (byte c) of
              None \<Rightarrow> False
            | Some (n, lo, hi) \<Rightarrow>
                n - 1 \<le> length cs
                \<and> lo \<le> byte (cs ! 0) \<and> byte (cs ! 0) \<le> hi
                \<and> (n < 3 \<or> continuation (cs ! 1))
                \<and> (n < 4 \<or> continuation (cs ! 2))
                \<and> utf8_Valid (drop (n - 1) cs)))"

section \<open>Decimal numbers (strconv)\<close>

text \<open>
  \<^verbatim>\<open>strconv.AppendInt(buf, i, 10)\<close> appends the decimal form of a signed 64-bit number:
  a minus sign for a negative number, then the digits with no leading zero.
\<close>

definition digit_char :: "nat \<Rightarrow> char" where
  "digit_char d = char_of (48 + d)"

fun FormatUint :: "nat \<Rightarrow> string" where
  "FormatUint n =
     (if n < 10 then [digit_char n] else FormatUint (n div 10) @ [digit_char (n mod 10)])"

declare FormatUint.simps [simp del]

definition FormatInt :: "int \<Rightarrow> string" where
  "FormatInt i = (if i < 0 then CHR ''-'' # FormatUint (nat (- i)) else FormatUint (nat i))"

text \<open>
  \<^verbatim>\<open>strconv.ParseInt(s, 10, 64)\<close>: an optional sign, then \<^verbatim>\<open>ParseUint\<close> on the rest, which
  reads decimal digits only, fails with a syntax error on the empty string and on any
  other byte, and with a range error when the number leaves 64 bits; the signed result
  must lie in \<open>-2^63 .. 2^63 - 1\<close>.
\<close>

datatype NumError = ErrSyntax | ErrRange

definition is_digit :: "char \<Rightarrow> bool" where
  "is_digit c = (48 \<le> byte c \<and> byte c \<le> 57)"

definition maxUint64 :: nat where
  "maxUint64 = 2 ^ 64 - 1"

fun ParseUint_loop :: "string \<Rightarrow> nat \<Rightarrow> NumError + nat" where
  "ParseUint_loop [] n = Inr n"
| "ParseUint_loop (c # cs) n =
     (if \<not> is_digit c then Inl ErrSyntax
      else if n \<ge> maxUint64 div 10 + 1 then Inl ErrRange
      else (let n1 = n * 10 + (byte c - 48)
            in if n1 > maxUint64 then Inl ErrRange else ParseUint_loop cs n1))"

definition ParseUint :: "string \<Rightarrow> NumError + nat" where
  "ParseUint s = (if s = [] then Inl ErrSyntax else ParseUint_loop s 0)"

definition ParseInt :: "string \<Rightarrow> NumError + int" where
  "ParseInt s0 =
     (if s0 = [] then Inl ErrSyntax
      else
        (let neg = (hd s0 = CHR ''-'');
             s = (if hd s0 = CHR ''+'' \<or> hd s0 = CHR ''-'' then tl s0 else s0)
         in case ParseUint s of
              Inl e \<Rightarrow> Inl e
            | Inr un \<Rightarrow>
                if \<not> neg \<and> un \<ge> 2 ^ 63 then Inl ErrRange
                else if neg \<and> un > 2 ^ 63 then Inl ErrRange
                else Inr (if neg then - int un else int un)))"

section \<open>Scopes\<close>

text \<open>
  Modelled from the spec: the package \<^verbatim>\<open>store/scope\<close> is not among the sources, apart
  from \<^verbatim>\<open>perm.go\<close>. The scope kinds are the spec's enumeration Default, Website, Group,
  Store. The textual prefixes of a fully qualified path are \<^verbatim>\<open>default\<close>, \<^verbatim>\<open>websites\<close>
  and \<^verbatim>\<open>stores\<close>; the Group scope has no prefix of its own and is treated as Default
  (\<^verbatim>\<open>Bind\<close>: "Group Scope is not supported and falls back to default").
\<close>

datatype Scope = DefaultID | WebsiteID | GroupID | StoreID

text \<open>Modelled from the spec: \<^verbatim>\<open>scope.FromScope(s).String()\<close>, the prefix of a scope.\<close>

fun FromScope :: "Scope \<Rightarrow> string" where
  "FromScope WebsiteID = ''websites''"
| "FromScope StoreID = ''stores''"
| "FromScope _ = ''default''"

text \<open>Modelled from the spec: \<^verbatim>\<open>scope.ValidBytes\<close>, whether the bytes are a known prefix.\<close>

definition ValidBytes :: "string \<Rightarrow> bool" where
  "ValidBytes b = (b = ''default'' \<or> b = ''websites'' \<or> b = ''stores'')"

text \<open>Modelled from the spec: \<^verbatim>\<open>scope.FromBytes\<close>, the scope of a prefix.\<close>

definition FromBytes :: "string \<Rightarrow> Scope" where
  "FromBytes b =
     (if b = ''websites'' then WebsiteID else if b = ''stores'' then StoreID else DefaultID)"

section \<open>Paths\<close>

text \<open>
  \<^verbatim>\<open>type Path struct { Route; Scope scope.Scope; ID int64 }\<close>, the route being a byte
  slice. The id is a signed 64-bit number, read with \<^term>\<open>sint\<close>.
\<close>

record Path =
  Route :: string
  Scope :: Scope
  ID :: "64 word"

datatype error =
    ErrRouteEmpty
  | ErrRouteInvalidBytes
  | ErrIncorrectPath
  | ErrCharNotAllowed char
  | ErrIncorrectFQ
  | ErrUnsupportedScope
  | ErrParseInt NumError
  | PanicSliceBounds

text \<open>
  Modelled from the spec: \<^verbatim>\<open>Route.IsEmpty\<close> and \<^verbatim>\<open>Route.Valid\<close> are not among the sources.
  A route is empty when it has no bytes; \<^verbatim>\<open>Valid\<close>, whose failure is reported as
  \<^verbatim>\<open>ErrRouteInvalidBytes\<close>, holds of well-formed UTF-8 (bytes outside ASCII are then
  rejected by the loop of \<^verbatim>\<open>IsValid\<close>).
\<close>

definition Route_IsEmpty :: "string \<Rightarrow> bool" where
  "Route_IsEmpty r = (r = [])"

definition Route_Valid :: "string \<Rightarrow> bool" where
  "Route_Valid r = utf8_Valid r"

text \<open>
  The loop of \<^verbatim>\<open>Path.IsValid\<close> over the bytes of the route, with its two counters. A
  byte at or above \<open>RuneSelf\<close> and a byte outside \<^verbatim>\<open>[0-9a-zA-Z_/]\<close> end the loop with
  an error.
\<close>

fun IsValid_loop :: "string \<Rightarrow> nat \<Rightarrow> nat \<Rightarrow> error + (nat \<times> nat)" where
  "IsValid_loop [] sepCount len = Inr (sepCount, len)"
| "IsValid_loop (c # cs) sepCount len =
     (if byte c < RuneSelf then
        (if 48 \<le> byte c \<and> byte c \<le> 57 then IsValid_loop cs sepCount (len + 1)
         else if 97 \<le> byte c \<and> byte c \<le> 122 then IsValid_loop cs sepCount (len + 1)
         else if 65 \<le> byte c \<and> byte c \<le> 90 then IsValid_loop cs sepCount (len + 1)
         else if c = CHR ''_'' then IsValid_loop cs sepCount (len + 1)
         else if c = rSeparator then IsValid_loop cs (sepCount + 1) (len + 1)
         else Inl (ErrCharNotAllowed c))
      else Inl (ErrCharNotAllowed c))"

text \<open>\<^verbatim>\<open>Path.IsValid\<close>; Go's \<^verbatim>\<open>nil\<close> error is \<open>None\<close>.\<close>

definition IsValid :: "Path \<Rightarrow> error option" where
  "IsValid p =
     (if Route_IsEmpty (Route p) then Some ErrRouteEmpty
      else if \<not> Route_Valid (Route p) then Some ErrRouteInvalidBytes
      else (case IsValid_loop (Route p) 0 0 of
              Inl e \<Rightarrow> Some e
            | Inr (sepCount, len) \<Rightarrow>
                if sepCount \<noteq> Levels - 1 \<or> len < 8 then Some ErrIncorrectPath else None))"

text \<open>\<^verbatim>\<open>Path.StrScope\<close>.\<close>

definition StrScope :: "Path \<Rightarrow> string" where
  "StrScope p = FromScope (Scope p)"

text \<open>
  \<^verbatim>\<open>Path.FQ\<close>: the id is set to zero when the scope is Default and the id is positive;
  then prefix, separator, decimal id, separator and route are written to the buffer
  (writes to a \<^verbatim>\<open>bytes.Buffer\<close> return no error).
\<close>

definition FQ :: "Path \<Rightarrow> error + string" where
  "FQ p =
     (case IsValid p of
        Some e \<Rightarrow> Inl e
      | None \<Rightarrow>
          (let p' = (if Scope p = DefaultID \<and> 0 < sint (ID p) then p\<lparr>ID := 0\<rparr> else p)
           in Inr (StrScope p' @ [rSeparator] @ FormatInt (sint (ID p')) @ [rSeparator]
                   @ Route p')))"

text \<open>
  The loop of \<^verbatim>\<open>Path.Level\<close>: \<open>pos\<close> is the offset behind the last separator found,
  \<open>i\<close> the number of the separator looked for. \<^verbatim>\<open>Route.Copy\<close> copies the bytes.
\<close>

function Level_loop :: "string \<Rightarrow> int \<Rightarrow> nat \<Rightarrow> int \<Rightarrow> string" where
  "Level_loop r level pos i =
     (if pos \<le> length r then
        (case IndexRune (drop pos r) rSeparator of
           None \<Rightarrow> r
         | Some sc \<Rightarrow>
             (if i = level then take (pos + sc + 1 - 1) r
              else Level_loop r level (pos + sc + 1) (i + 1)))
      else r)"
  by pat_completeness auto
termination
  by (relation "measure (\<lambda>(r, level, pos, i). length r + 1 - pos)") auto

declare Level_loop.simps [simp del]

text \<open>\<^verbatim>\<open>Path.Level\<close>.\<close>

definition Level :: "Path \<Rightarrow> int \<Rightarrow> error + string" where
  "Level p level =
     (case IsValid p of
        Some e \<Rightarrow> Inl e
      | None \<Rightarrow>
          (if level < 0 \<or> level \<ge> int (length (Route p)) then Inr (Route p)
           else if level = 0 then Inr []
           else Inr (Level_loop (Route p) level 0 1)))"

text \<open>\<^verbatim>\<open>isFQ\<close>: at least \<open>Levels + 1\<close> separators.\<close>

definition isFQ :: "string \<Rightarrow> bool" where
  "isFQ fqPath = (Count fqPath rSeparator \<ge> Levels + 1)"

text \<open>
  \<^verbatim>\<open>SplitFQ\<close>. A slice expression with the index \<open>-1\<close> would panic; after \<^verbatim>\<open>isFQ\<close>
  both separators exist. The error of \<^verbatim>\<open>ParseInt\<close> is returned beside the path, so
  the call fails exactly when parsing does.
\<close>

definition SplitFQ :: "string \<Rightarrow> error + Path" where
  "SplitFQ fqPath =
     (if \<not> isFQ fqPath \<or> \<not> Route_Valid fqPath then Inl ErrIncorrectFQ
      else
        (case IndexRune fqPath rSeparator of
           None \<Rightarrow> Inl PanicSliceBounds
         | Some fi \<Rightarrow>
             (let scopeBytes = take fi fqPath
              in if \<not> ValidBytes scopeBytes then Inl ErrUnsupportedScope
                 else
                   (let fqPath' = drop (fi + 1) fqPath
                    in case IndexRune fqPath' rSeparator of
                         None \<Rightarrow> Inl PanicSliceBounds
                       | Some fi' \<Rightarrow>
                           (case ParseInt (take fi' fqPath') of
                              Inl e \<Rightarrow> Inl (ErrParseInt e)
                            | Inr scopeID \<Rightarrow>
                                Inr \<lparr>Route = drop (fi' + 1) fqPath',
                                     Scope = FromBytes scopeBytes,
                                     ID = word_of_int scopeID\<rparr>)))))"

section \<open>Notions of the specification\<close>

text \<open>
  The bytes \<^verbatim>\<open>IsValid\<close> lets through: digits, letters, the underscore and the
  separator.
\<close>

definition route_byte :: "char \<Rightarrow> bool" where
  "route_byte c =
     ((48 \<le> byte c \<and> byte c \<le> 57) \<or> (97 \<le> byte c \<and> byte c \<le> 122)
      \<or> (65 \<le> byte c \<and> byte c \<le> 90) \<or> c = CHR ''_'' \<or> c = rSeparator)"

text \<open>
  The segments of a route are the pieces between its separators; \<open>join_segments\<close> puts
  a separator between consecutive segments, and the first \<open>n\<close> segments of a route are
  \<open>first_segments n\<close>.
\<close>

fun route_segments :: "string \<Rightarrow> string list" where
  "route_segments [] = [[]]"
| "route_segments (c # cs) =
     (if c = rSeparator then [] # route_segments cs
      else (c # hd (route_segments cs)) # tl (route_segments cs))"

fun join_segments :: "string list \<Rightarrow> string" where
  "join_segments [] = []"
| "join_segments [s] = s"
| "join_segments (s # ss) = s @ rSeparator # join_segments ss"

definition first_segments :: "nat \<Rightarrow> string \<Rightarrow> string" where
  "first_segments n r = join_segments (take n (route_segments r))"

text \<open>
  The canonical form of a path: the id of a Default-scoped path is zero.
\<close>

definition canonical :: "Path \<Rightarrow> Path" where
  "canonical p = (if Scope p = DefaultID then p\<lparr>ID := 0\<rparr> else p)"

text \<open>
  The parts of a fully qualified path that \<^verbatim>\<open>SplitFQ\<close> reads: the scope prefix before
  the first separator and the id between the first and the second separator. A decimal
  integer is an optional sign followed by at least one digit.
\<close>

definition scope_part :: "string \<Rightarrow> string" where
  "scope_part fq = takeWhile (\<lambda>c. c \<noteq> rSeparator) fq"

definition id_part :: "string \<Rightarrow> string" where
  "id_part fq = takeWhile (\<lambda>c. c \<noteq> rSeparator) (drop (length (scope_part fq) + 1) fq)"

definition decimal_integer :: "string \<Rightarrow> bool" where
  "decimal_integer s =
     (case s of
        [] \<Rightarrow> False
      | c # cs \<Rightarrow>
          if c = CHR ''+'' \<or> c = CHR ''-'' then cs \<noteq> [] \<and> list_all is_digit cs
          else list_all is_digit s)"

text \<open>The number a string of decimal digits stands for, read from the left.\<close>

definition digits_value :: "string \<Rightarrow> nat \<Rightarrow> nat" where
  "digits_value cs n = foldl (\<lambda>a c. a * 10 + (byte c - 48)) n cs"

text \<open>
  The scopes a path can be bound to: \<^verbatim>\<open>Bind\<close> documents that the Group scope "is not
  supported and falls back to default", and a fully qualified path has no prefix for it.
\<close>

definition supported_scope :: "Scope \<Rightarrow> bool" where
  "supported_scope s = (s = DefaultID \<or> s = WebsiteID \<or> s = StoreID)"

section \<open>Scope permissions (store/scope/perm.go)\<close>

text \<open>
  \<^verbatim>\<open>type Perm uint16\<close>, a bit set over the scope types.

  The declaration of \<^verbatim>\<open>scope.Type\<close> (an unsigned 8-bit enumeration), its constants
  \<^verbatim>\<open>Default\<close>, \<^verbatim>\<open>Website\<close>, \<^verbatim>\<open>Group\<close>, \<^verbatim>\<open>Store\<close>, the bound \<^verbatim>\<open>maxType\<close> and the method
  \<^verbatim>\<open>Type.String\<close> are not among the sources. They are parameters of the model: a
  \<open>ScopeTypes\<close> gives the number of each constant and the name of each number.
\<close>

type_synonym Perm = "16 word"

record ScopeTypes =
  Default :: nat
  Website :: nat
  Group :: nat
  Store :: nat
  maxType :: nat
  Type_String :: "nat \<Rightarrow> string"

text \<open>
  What the specification says of these constants: the hierarchy order Default, Website,
  Group, Store, all below \<^verbatim>\<open>maxType\<close>; numbers small enough that \<^verbatim>\<open>1 << Type\<close> fits
  the bit set; and the names \<^verbatim>\<open>Default\<close>, \<^verbatim>\<open>Website\<close>, \<^verbatim>\<open>Group\<close>, \<^verbatim>\<open>Store\<close>.
\<close>

definition hierarchy :: "ScopeTypes \<Rightarrow> bool" where
  "hierarchy T =
     (Default T < Website T \<and> Website T < Group T \<and> Group T < Store T
      \<and> Store T < maxType T \<and> maxType T \<le> 16
      \<and> Type_String T (Default T) = ''Default''
      \<and> Type_String T (Website T) = ''Website''
      \<and> Type_String T (Group T) = ''Group''
      \<and> Type_String T (Store T) = ''Store'')"

text \<open>
  Two numberings: the enumeration of the specification, which starts at Default = 0, and
  the one that starts at 1 and leaves 0 to the absent scope. The second is the one under
  which \<^verbatim>\<open>Perm(44).Top()\<close> is \<^verbatim>\<open>Website\<close>, as \<^verbatim>\<open>TestPermTop\<close> expects.
\<close>

definition type_names :: "nat \<Rightarrow> nat \<Rightarrow> string" where
  "type_names first i =
     (if i = first then ''Default'' else if i = first + 1 then ''Website''
      else if i = first + 2 then ''Group'' else if i = first + 3 then ''Store''
      else ''Absent'')"

definition types_from_0 :: ScopeTypes where
  "types_from_0 =
     \<lparr>Default = 0, Website = 1, Group = 2, Store = 3, maxType = 4,
      Type_String = type_names 0\<rparr>"

definition types_from_1 :: ScopeTypes where
  "types_from_1 =
     \<lparr>Default = 1, Website = 2, Group = 3, Store = 4, maxType = 5,
      Type_String = type_names 1\<rparr>"

text \<open>\<^verbatim>\<open>Perm.Set\<close>: \<^verbatim>\<open>bits |= 1 << i\<close> for every scope of the argument list.\<close>

definition Perm_Set :: "Perm \<Rightarrow> nat list \<Rightarrow> Perm" where
  "Perm_Set bits scopes = foldl (\<lambda>b i. b OR push_bit i 1) bits scopes"

text \<open>\<^verbatim>\<open>Perm.All\<close>.\<close>

definition Perm_All :: "ScopeTypes \<Rightarrow> Perm \<Rightarrow> Perm" where
  "Perm_All T bits = Perm_Set bits [Default T, Website T, Store T]"

text \<open>\<^verbatim>\<open>Perm.Has\<close>.\<close>

definition Perm_Has :: "Perm \<Rightarrow> nat \<Rightarrow> bool" where
  "Perm_Has bits s = (bits AND push_bit s 1 \<noteq> 0)"

text \<open>\<^verbatim>\<open>Perm.Top\<close>.\<close>

definition Perm_Top :: "ScopeTypes \<Rightarrow> Perm \<Rightarrow> nat" where
  "Perm_Top T bits =
     (if Perm_Has bits (Store T) then Store T
      else if Perm_Has bits (Website T) then Website T
      else Default T)"

text \<open>
  \<^verbatim>\<open>Perm.Human\<close>: the loop \<^verbatim>\<open>for i := uint(0); i < uint(maxType); i++\<close> appends the name
  of every type whose bit is set.
\<close>

definition Perm_Human :: "ScopeTypes \<Rightarrow> Perm \<Rightarrow> string list" where
  "Perm_Human T bits =
     foldl (\<lambda>ret i. if bits AND push_bit i 1 \<noteq> 0 then ret @ [Type_String T i] else ret)
       [] [0..<maxType T]"

text \<open>
  \<^verbatim>\<open>Perm.String\<close>: the same loop writes each name and a comma to a buffer, which
  \<^verbatim>\<open>bufferpool.Get\<close> hands out empty. \<^verbatim>\<open>buf.Truncate(buf.Len() - 1)\<close> then drops the
  last byte; \<^verbatim>\<open>bytes.Buffer.Truncate\<close> panics on a negative length, that is when the
  buffer is empty.
\<close>

datatype panic = TruncationOutOfRange

definition Perm_String :: "ScopeTypes \<Rightarrow> Perm \<Rightarrow> panic + string" where
  "Perm_String T bits =
     (let buf = foldl (\<lambda>buf i. if bits AND push_bit i 1 \<noteq> 0
                                then buf @ Type_String T i @ [CHR '','']
                                else buf)
                  [] [0..<maxType T]
      in if int (length buf) - 1 < 0 then Inl TruncationOutOfRange
         else Inr (take (length buf - 1) buf))"

text \<open>
  \<^verbatim>\<open>Perm.MarshalJSON\<close>. \<open>dquote\<close> is the double quote. The loop over the names writes
  a name and, before the last index \<open>lhm\<close>, the three bytes quote, comma, quote. Writes
  to the buffer return no error, so the error result is always \<^verbatim>\<open>nil\<close> and only the
  bytes are modelled.
\<close>

definition dquote :: char where
  "dquote = CHR 0x22"

fun write_names :: "string list \<Rightarrow> int \<Rightarrow> int \<Rightarrow> string \<Rightarrow> string" where
  "write_names [] i lhm buf = buf"
| "write_names (h # hm) i lhm buf =
     write_names hm (i + 1) lhm
       (if i < lhm then buf @ h @ [dquote, CHR '','', dquote] else buf @ h)"

definition Perm_MarshalJSON :: "ScopeTypes \<Rightarrow> Perm \<Rightarrow> string" where
  "Perm_MarshalJSON T bits =
     (if bits = 0 then ''null''
      else
        (let hm = Perm_Human T bits;
             lhm = int (length hm) - 1
         in write_names hm 0 lhm [CHR ''['', dquote] @ [dquote, CHR '']'']))"

text \<open>The names joined by commas, with no comma after the last.\<close>

fun comma_join :: "string list \<Rightarrow> string" where
  "comma_join [] = []"
| "comma_join [s] = s"
| "comma_join (s # ss) = s @ CHR '','' # comma_join ss"

text \<open>The names of the types below \<^verbatim>\<open>maxType\<close> whose bit is set, in increasing order.\<close>

definition set_scope_names :: "ScopeTypes \<Rightarrow> Perm \<Rightarrow> string list" where
  "set_scope_names T bits = map (Type_String T) (filter (bit bits) [0..<maxType T])"

section \<open>Publish and subscribe (config/service_pubsub.go)\<close>

text \<open>
  The paths of this file are \<^verbatim>\<open>config.Path\<close> values, whose methods \<^verbatim>\<open>IsEmpty\<close>,
  \<^verbatim>\<open>Hash32\<close> and \<^verbatim>\<open>Hash\<close> are not among the sources, and the subscribers are values of
  the interface \<^verbatim>\<open>MessageReceiver\<close>, implemented outside the package. Both are
  parameters of the model: paths have any type \<open>'p\<close>, receivers are references of any
  type \<open>'r\<close> into a state \<open>'w\<close> of the receivers' own, and an \<open>env\<close> gives the three
  methods of a path and the method \<^verbatim>\<open>MessageConfig\<close> of a receiver. \<^verbatim>\<open>Hash\<close> returns a
  number and an error; \<^verbatim>\<open>readMapAndSend\<close> only logs the error and uses the number.

  A call of \<^verbatim>\<open>MessageConfig\<close> changes the receivers' state and either returns an error
  value (\<^verbatim>\<open>nil\<close> is \<open>None\<close>) or panics, with an error value or with any other value
  (the value that \<^verbatim>\<open>recover\<close> returns, which is not \<^verbatim>\<open>nil\<close> for a panic).
\<close>

datatype outcome = Returns "string option" | PanicsError string | PanicsOther string

record ('p, 'r, 'w) env =
  IsEmpty :: "'p \<Rightarrow> bool"
  Hash32 :: "'p \<Rightarrow> 32 word"
  Hash :: "'p \<Rightarrow> int \<Rightarrow> 32 word"
  MessageConfig :: "'r \<Rightarrow> 'p \<Rightarrow> 'w \<Rightarrow> outcome \<times> 'w"

text \<open>
  \<^verbatim>\<open>type pubSub struct\<close>: the map \<^verbatim>\<open>subMap\<close> from topic hashes to buckets, a bucket being
  a map from subscription ids to receivers, and the counter \<^verbatim>\<open>subAutoInc\<close>. Both maps
  are association lists, iterated in list order; Go leaves the order of a \<^verbatim>\<open>range\<close>
  over a map open, and every order is the order of some list. The mutex, the channels
  and the flag \<^verbatim>\<open>closed\<close> serve the goroutine of \<^verbatim>\<open>publish\<close> and are left out: the model
  is the work done for the paths in the order in which the channel delivers them.
\<close>

record 'r pubSub =
  subMap :: "(32 word \<times> (int \<times> 'r) list) list"
  subAutoInc :: int

datatype sub_error = ErrEmpty

text \<open>\<^verbatim>\<open>newPubSub\<close>.\<close>

definition newPubSub :: "'r pubSub" where
  "newPubSub = \<lparr>subMap = [], subAutoInc = 0\<rparr>"

text \<open>\<^verbatim>\<open>pubSub.Subscribe\<close>: the result and the state after the call.\<close>

definition Subscribe ::
  "('p, 'r, 'w) env \<Rightarrow> 'r pubSub \<Rightarrow> 'p \<Rightarrow> 'r \<Rightarrow> (sub_error + int) \<times> 'r pubSub" where
  "Subscribe env s p mr =
     (if IsEmpty env p then (Inl ErrEmpty, s)
      else
        (let subscriptionID = subAutoInc s + 1;
             hashPath = Hash32 env p;
             bucket = (case map_of (subMap s) hashPath of None \<Rightarrow> [] | Some subs \<Rightarrow> subs)
         in (Inr subscriptionID,
             s\<lparr>subAutoInc := subscriptionID,
               subMap := AList.update hashPath (AList.update subscriptionID mr bucket)
                           (subMap s)\<rparr>)))"

text \<open>
  \<^verbatim>\<open>pubSub.Unsubscribe\<close>: the first bucket that holds the id loses it, an empty bucket is
  dropped, and the loop returns. The result is always \<^verbatim>\<open>nil\<close>.
\<close>

fun Unsubscribe_loop ::
  "(32 word \<times> (int \<times> 'r) list) list \<Rightarrow> int \<Rightarrow> (32 word \<times> (int \<times> 'r) list) list" where
  "Unsubscribe_loop [] subscriptionID = []"
| "Unsubscribe_loop ((path, subs) # rest) subscriptionID =
     (if map_of subs subscriptionID \<noteq> None then
        (if AList.delete subscriptionID subs = [] then rest
         else (path, AList.delete subscriptionID subs) # rest)
      else (path, subs) # Unsubscribe_loop rest subscriptionID)"

definition Unsubscribe :: "'r pubSub \<Rightarrow> int \<Rightarrow> 'r pubSub" where
  "Unsubscribe s subscriptionID = s\<lparr>subMap := Unsubscribe_loop (subMap s) subscriptionID\<rparr>"

text \<open>
  \<^verbatim>\<open>pubSub.sendMsgRecoverable\<close>: the deferred \<^verbatim>\<open>recover\<close> turns a panic into the returned
  error.
\<close>

definition sendMsgRecoverable ::
  "('p, 'r, 'w) env \<Rightarrow> int \<Rightarrow> 'r \<Rightarrow> 'p \<Rightarrow> 'w \<Rightarrow> string option \<times> 'w" where
  "sendMsgRecoverable env sid sl p w =
     (case MessageConfig env sl p w of
        (Returns err, w') \<Rightarrow> (err, w')
      | (PanicsError recErr, w') \<Rightarrow> (Some recErr, w')
      | (PanicsOther r, w') \<Rightarrow> (Some r, w'))"

text \<open>
  \<^verbatim>\<open>pubSub.sendMsgs\<close>: the ids marked for eviction, the receivers' state after the calls
  and the calls made, each with the id of the subscription, the path sent and the error
  that came back.
\<close>

type_synonym 'p delivery = "int \<times> 'p \<times> string option"

fun sendMsgs ::
  "('p, 'r, 'w) env \<Rightarrow> (int \<times> 'r) list \<Rightarrow> 'p \<Rightarrow> 'w \<Rightarrow> int list \<times> 'w \<times> 'p delivery list" where
  "sendMsgs env [] p w = ([], w, [])"
| "sendMsgs env ((sid, sub) # subs) p w =
     (case sendMsgRecoverable env sid sub p w of
        (err, w1) \<Rightarrow>
          (case sendMsgs env subs p w1 of
             (evict, w2, sent) \<Rightarrow>
               ((if err \<noteq> None then [sid] else []) @ evict, w2, (sid, p, err) # sent)))"

text \<open>The lookup of a bucket and the call of \<^verbatim>\<open>sendMsgs\<close> on it.\<close>

definition sendBucket ::
  "('p, 'r, 'w) env \<Rightarrow> 'r pubSub \<Rightarrow> 32 word \<Rightarrow> 'p \<Rightarrow> 'w \<Rightarrow> int list \<times> 'w \<times> 'p delivery list" where
  "sendBucket env s h p w =
     (case map_of (subMap s) h of
        Some subs \<Rightarrow> sendMsgs env subs p w
      | None \<Rightarrow> ([], w, []))"

text \<open>
  \<^verbatim>\<open>pubSub.readMapAndSend\<close>: two lookups, each with the hash \<^verbatim>\<open>p.Hash(level)\<close>.
\<close>

definition readMapAndSend ::
  "('p, 'r, 'w) env \<Rightarrow> 'r pubSub \<Rightarrow> 'p \<Rightarrow> int \<Rightarrow> 'w \<Rightarrow> int list \<times> 'w \<times> 'p delivery list" where
  "readMapAndSend env s p level w =
     (case sendBucket env s (Hash env p level) p w of
        (evict1, w1, sent1) \<Rightarrow>
          (case sendBucket env s (Hash env p level) p w1 of
             (evict2, w2, sent2) \<Rightarrow> (evict1 @ evict2, w2, sent1 @ sent2)))"

text \<open>
  The body of the loop of \<^verbatim>\<open>pubSub.publish\<close> for one path received from the channel:
  the state of the service and of the receivers after it, and the calls made.
\<close>

definition publish_path ::
  "('p, 'r, 'w) env \<Rightarrow> 'r pubSub \<Rightarrow> 'p \<Rightarrow> 'w \<Rightarrow> 'r pubSub \<times> 'w \<times> 'p delivery list" where
  "publish_path env s p w =
     (if length (subMap s) = 0 then (s, w, [])
      else
        (case readMapAndSend env s p 1 w of
           (evict1, w1, sent1) \<Rightarrow>
             (case readMapAndSend env s p 2 w1 of
                (evict2, w2, sent2) \<Rightarrow>
                  (case readMapAndSend env s p (- 1) w2 of
                     (evict3, w3, sent3) \<Rightarrow>
                       (foldl Unsubscribe s (evict1 @ evict2 @ evict3), w3,
                        sent1 @ sent2 @ sent3)))))"

text \<open>The loop of \<^verbatim>\<open>pubSub.publish\<close> over the paths the channel delivers, in order.\<close>

fun publish ::
  "('p, 'r, 'w) env \<Rightarrow> 'r pubSub \<Rightarrow> 'p list \<Rightarrow> 'w \<Rightarrow> 'r pubSub \<times> 'w \<times> 'p delivery list" where
  "publish env s [] w = (s, w, [])"
| "publish env s (p # ps) w =
     (case publish_path env s p w of
        (s1, w1, sent1) \<Rightarrow>
          (case publish env s1 ps w1 of
             (s2, w2, sent2) \<Rightarrow> (s2, w2, sent1 @ sent2)))"

text \<open>
  The subscriptions of a state, the ids among them, and the number of calls a
  subscription received.
\<close>

definition subscriptions :: "'r pubSub \<Rightarrow> (int \<times> 'r) list" where
  "subscriptions s = concat (map snd (subMap s))"

definition subscription_ids :: "'r pubSub \<Rightarrow> int list" where
  "subscription_ids s = map fst (subscriptions s)"

definition received :: "int \<Rightarrow> 'p delivery list \<Rightarrow> nat" where
  "received sid sent = length (filter (\<lambda>d. fst d = sid) sent)"

definition failed_ids :: "'p delivery list \<Rightarrow> int list" where
  "failed_ids sent = map fst (filter (\<lambda>d. snd (snd d) \<noteq> None) sent)"

text \<open>
  Modelled from the spec: an instance of the parameters. A path is the text of a route.
  \<^verbatim>\<open>Path.Hash(level)\<close> is "FNV-1a over the first level segments" (a negative level
  takes the whole route), \<^verbatim>\<open>Hash32\<close> the same hash of the whole route. A receiver of
  the instance behaves the same at every call and has no state.
\<close>

definition fnv32a :: "string \<Rightarrow> 32 word" where
  "fnv32a s = foldl (\<lambda>h c. (h XOR of_nat (byte c)) * 16777619) 2166136261 s"

definition route_env :: "(string, outcome, unit) env" where
  "route_env =
     \<lparr>IsEmpty = (\<lambda>p. p = []),
      Hash32 = fnv32a,
      Hash = (\<lambda>p level. fnv32a (if level < 0 then p else first_segments (nat level) p)),
      MessageConfig = (\<lambda>r p w. (r, w))\<rparr>"

text \<open>How often an id occurs in the bucket of a hash.\<close>

definition bucket_count :: "'r pubSub \<Rightarrow> 32 word \<Rightarrow> int \<Rightarrow> nat" where
  "bucket_count s h sid =
     (case map_of (subMap s) h of
        None \<Rightarrow> 0
      | Some subs \<Rightarrow> length (filter (\<lambda>x. fst x = sid) subs))"

text \<open>
  Every subscription id occurs once in the map: \<^verbatim>\<open>Subscribe\<close> hands out the values of a
  counter, so no id is in two buckets or twice in one.
\<close>

definition ids_distinct :: "'r pubSub \<Rightarrow> bool" where
  "ids_distinct s = distinct (subscription_ids s)"

text \<open>
  A state of the instance with three subscribers: one on \<^verbatim>\<open>system\<close> that panics, one on
  \<^verbatim>\<open>system\<close> that returns \<^verbatim>\<open>nil\<close>, and one on \<^verbatim>\<open>system/smtp\<close> that returns an error.
\<close>

definition three_subscribers :: "outcome pubSub" where
  "three_subscribers =
     \<lparr>subMap = [(fnv32a ''system'', [(1, PanicsOther ''boom''), (2, Returns None)]),
                (fnv32a ''system/smtp'', [(3, Returns (Some ''refused''))])],
      subAutoInc = 3\<rparr>"

section \<open>The SQL table backend (DBStorage)\<close>

text \<open>
  \<^verbatim>\<open>DBStorage.Value\<close> reads one row of the table with the columns scope, scope id, path
  and value through the prepared statement \<^verbatim>\<open>Read\<close>. What the method sees of the
  database is modelled by two fields: the error of \<^verbatim>\<open>dbs.Read.Stmt\<close>, if preparing the
  statement fails, and the rows of the table, a map from the three key columns to the
  value column, which may be \<^verbatim>\<open>NULL\<close> (\<open>None\<close>).

  \<^verbatim>\<open>stmt.QueryRow(...).Scan(&data)\<close> is Go's \<^verbatim>\<open>database/sql\<close>: \<^verbatim>\<open>Scan\<close> returns
  \<^verbatim>\<open>sql.ErrNoRows\<close> when no row matches the query, and otherwise fills the
  \<^verbatim>\<open>null.String\<close>, whose field \<^verbatim>\<open>Valid\<close> is false for \<^verbatim>\<open>NULL\<close>.
\<close>

record DBStorage =
  Read_Stmt_error :: "string option"
  table :: "string \<times> int \<times> string \<rightharpoonup> string option"

datatype sql_error = ErrNoRows

definition QueryRow_Scan ::
  "DBStorage \<Rightarrow> string \<Rightarrow> int \<Rightarrow> string \<Rightarrow> sql_error + string option" where
  "QueryRow_Scan dbs scp sid pl =
     (case table dbs (scp, sid, pl) of
        None \<Rightarrow> Inl ErrNoRows
      | Some data \<Rightarrow> Inr data)"

text \<open>
  The errors \<^verbatim>\<open>Value\<close> returns: \<^verbatim>\<open>errKeyNotFound\<close>, made by \<^verbatim>\<open>errors.NewNotFoundf\<close>, and
  the three errors made by \<^verbatim>\<open>errors.Wrapf\<close> around the error of the failed step.
  \<^verbatim>\<open>Wrapf\<close> adds a message and keeps its cause; an error matches the kind NotFound when
  it was made with that kind. \<^verbatim>\<open>sql.ErrNoRows\<close> is a plain error of the standard
  library, and so are the errors of a route in this model; the error of a statement is
  any driver error.
\<close>

datatype value_error =
    errKeyNotFound
  | Wrapf_Read_Stmt string
  | Wrapf_key_Level error
  | Wrapf_QueryRow sql_error

fun NotFound_Match :: "value_error \<Rightarrow> bool" where
  "NotFound_Match errKeyNotFound = True"
| "NotFound_Match (Wrapf_Read_Stmt e) = False"
| "NotFound_Match (Wrapf_key_Level e) = False"
| "NotFound_Match (Wrapf_QueryRow e) = False"

text \<open>
  \<^verbatim>\<open>DBStorage.Value\<close>. The key is a path; \<^verbatim>\<open>key.ScopeID.Unpack()\<close> gives its scope and
  id, and \<^verbatim>\<open>scp.StrType()\<close> the text of the scope (modelled from the spec: the prefixes
  of \<open>FromScope\<close>).
\<close>

definition Value :: "DBStorage \<Rightarrow> Path \<Rightarrow> value_error + string" where
  "Value dbs key =
     (case Read_Stmt_error dbs of
        Some err \<Rightarrow> Inl (Wrapf_Read_Stmt err)
      | None \<Rightarrow>
          (case Level key (- 1) of
             Inl err \<Rightarrow> Inl (Wrapf_key_Level err)
           | Inr pl \<Rightarrow>
               (case QueryRow_Scan dbs (FromScope (Scope key)) (sint (ID key)) pl of
                  Inl err \<Rightarrow> Inl (Wrapf_QueryRow err)
                | Inr data \<Rightarrow>
                    (case data of
                       Some str \<Rightarrow> Inr str
                     | None \<Rightarrow> Inl errKeyNotFound))))"

text \<open>A database with a working statement and an empty table.\<close>

definition empty_table :: DBStorage where
  "empty_table = \<lparr>Read_Stmt_error = None, table = Map.empty\<rparr>"

section \<open>Properties of routes and paths\<close>

lemma route_byte_ascii: "route_byte c \<Longrightarrow> byte c < RuneSelf"
  by (auto simp: route_byte_def RuneSelf_def byte_def rSeparator_def)

lemma Count_Nil [simp]: "Count [] c = 0"
  by (simp add: Count_def)

lemma Count_Cons [simp]: "Count (x # xs) c = (if x = c then Suc (Count xs c) else Count xs c)"
  by (simp add: Count_def)

lemma Count_append [simp]: "Count (xs @ ys) c = Count xs c + Count ys c"
  by (simp add: Count_def)

lemma IsValid_loop_ok:
  "list_all route_byte cs \<Longrightarrow>
   IsValid_loop cs s l = Inr (s + Count cs rSeparator, l + length cs)"
proof (induction cs arbitrary: s l)
  case Nil
  then show ?case by simp
next
  case (Cons c cs)
  then have rb: "route_byte c" and rest: "list_all route_byte cs" by simp_all
  have asc: "byte c < RuneSelf" using rb by (rule route_byte_ascii)
  have sep: "c = rSeparator \<Longrightarrow>
      \<not> (48 \<le> byte c \<and> byte c \<le> 57) \<and> \<not> (97 \<le> byte c \<and> byte c \<le> 122)
      \<and> \<not> (65 \<le> byte c \<and> byte c \<le> 90) \<and> c \<noteq> CHR ''_''"
    by (simp add: rSeparator_def byte_def)
  show ?case
    using rb asc sep Cons.IH [OF rest]
    by (auto simp: route_byte_def)
qed

lemma IsValid_loop_Inr:
  "IsValid_loop cs s l = Inr x \<Longrightarrow> list_all route_byte cs"
  by (induction cs arbitrary: s l) (auto simp: route_byte_def split: if_splits)

lemma ascii_utf8_Valid: "list_all (\<lambda>c. byte c < RuneSelf) cs \<Longrightarrow> utf8_Valid cs"
  by (induction cs) auto

lemma route_bytes_Valid: "list_all route_byte cs \<Longrightarrow> Route_Valid cs"
  unfolding Route_Valid_def
  by (rule ascii_utf8_Valid) (auto simp: list_all_iff route_byte_ascii)

text \<open>
  What \<^verbatim>\<open>IsValid\<close> checks, in closed form: the bytes, the number of separators and the
  total length, and nothing about the single segments.
\<close>

lemma IsValid_None_iff:
  "IsValid p = None \<longleftrightarrow>
     list_all route_byte (Route p) \<and> Count (Route p) rSeparator = 2 \<and> 8 \<le> length (Route p)"
proof
  assume v: "IsValid p = None"
  then have "\<exists>x. IsValid_loop (Route p) 0 0 = Inr x"
    by (auto simp: IsValid_def split: if_splits sum.splits)
  then have rb: "list_all route_byte (Route p)" by (auto dest: IsValid_loop_Inr)
  from v show "list_all route_byte (Route p) \<and> Count (Route p) rSeparator = 2
      \<and> 8 \<le> length (Route p)"
    using rb by (auto simp: IsValid_def IsValid_loop_ok Levels_def split: if_splits)
next
  assume a: "list_all route_byte (Route p) \<and> Count (Route p) rSeparator = 2
      \<and> 8 \<le> length (Route p)"
  then have "Route p \<noteq> []" by auto
  with a show "IsValid p = None"
    by (simp add: IsValid_def Route_IsEmpty_def route_bytes_Valid IsValid_loop_ok Levels_def)
qed

lemma IndexRune_None_iff: "IndexRune cs r = None \<longleftrightarrow> r \<notin> set cs"
  by (induction cs) (auto split: option.splits)

lemma IndexRune_Some:
  "IndexRune cs r = Some i \<Longrightarrow> i < length cs \<and> cs ! i = r \<and> r \<notin> set (take i cs)"
proof (induction cs arbitrary: i)
  case Nil
  then show ?case by simp
next
  case (Cons c cs)
  then show ?case
    by (cases "c = r") (auto split: option.splits)
qed

lemma IndexRune_append: "r \<notin> set xs \<Longrightarrow> IndexRune (xs @ r # ys) r = Some (length xs)"
  by (induction xs) auto

lemma route_segments_not_Nil [simp]: "route_segments cs \<noteq> []"
  by (induction cs) auto

lemma route_segments_no_sep: "rSeparator \<notin> set cs \<Longrightarrow> route_segments cs = [cs]"
  by (induction cs) auto

lemma route_segments_split:
  "rSeparator \<notin> set a \<Longrightarrow> route_segments (a @ rSeparator # b) = a # route_segments b"
  by (induction a) auto

lemma length_route_segments: "length (route_segments cs) = Suc (Count cs rSeparator)"
proof (induction cs)
  case Nil
  then show ?case by simp
next
  case (Cons c cs)
  have "length (route_segments cs) \<noteq> 0" by simp
  then have "Suc (length (tl (route_segments cs))) = length (route_segments cs)"
    by (cases "route_segments cs") auto
  then show ?case using Cons by auto
qed

lemma join_segments_Cons: "ss \<noteq> [] \<Longrightarrow> join_segments (s # ss) = s @ rSeparator # join_segments ss"
  by (cases ss) auto

lemma join_route_segments: "join_segments (route_segments cs) = cs"
proof (induction cs)
  case Nil
  then show ?case by simp
next
  case (Cons c cs)
  obtain s ss where seg: "route_segments cs = s # ss"
    by (cases "route_segments cs") auto
  show ?case
  proof (cases "c = rSeparator")
    case True
    then show ?thesis using Cons by (simp add: join_segments_Cons)
  next
    case False
    then show ?thesis using Cons seg by (cases ss) auto
  qed
qed

lemma drop_split_at:
  assumes "sc < length (drop pos r)" "drop pos r ! sc = rSeparator"
  shows "drop pos r = take sc (drop pos r) @ rSeparator # drop (pos + sc + 1) r"
proof -
  have "drop pos r = take sc (drop pos r) @ (drop pos r ! sc) # drop (Suc sc) (drop pos r)"
    using assms(1) by (rule id_take_nth_drop)
  moreover have "drop (Suc sc) (drop pos r) = drop (pos + sc + 1) r"
    by (simp add: add.commute)
  ultimately show ?thesis using assms(2) by simp
qed

lemma take_split_at:
  assumes "sc < length (drop pos r)" "drop pos r ! sc = rSeparator"
  shows "take (pos + sc + 1) r = take pos r @ take sc (drop pos r) @ [rSeparator]"
proof -
  have "take (pos + (sc + 1)) r = take pos r @ take (sc + 1) (drop pos r)"
    by (rule take_add)
  moreover have "take (Suc sc) (drop pos r) = take sc (drop pos r) @ [drop pos r ! sc]"
    using assms(1) by (rule take_Suc_conv_app_nth)
  ultimately show ?thesis using assms(2) by (simp add: add.assoc)
qed

lemma Level_loop_segments:
  "pos \<le> length r \<Longrightarrow> 1 \<le> i \<Longrightarrow> i \<le> level \<Longrightarrow>
   Level_loop r level pos i
     = take pos r @ first_segments (nat (level - i + 1)) (drop pos r)"
proof (induction r level pos i rule: Level_loop.induct)
  case (1 r level pos i)
  show ?case
  proof (cases "IndexRune (drop pos r) rSeparator")
    case None
    then have "rSeparator \<notin> set (drop pos r)" by (simp add: IndexRune_None_iff)
    then have "route_segments (drop pos r) = [drop pos r]" by (rule route_segments_no_sep)
    moreover obtain k where "nat (level - i + 1) = Suc k"
      using "1.prems" by (cases "nat (level - i + 1)") auto
    ultimately have "first_segments (nat (level - i + 1)) (drop pos r) = drop pos r"
      by (simp add: first_segments_def)
    then show ?thesis
      using None "1.prems" by (subst Level_loop.simps) simp
  next
    case (Some sc)
    from IndexRune_Some [OF Some]
    have sc: "sc < length (drop pos r)" and at: "drop pos r ! sc = rSeparator"
      and nosep: "rSeparator \<notin> set (take sc (drop pos r))" by auto
    define a where "a = take sc (drop pos r)"
    define b where "b = drop (pos + sc + 1) r"
    have split: "drop pos r = a @ rSeparator # b"
      unfolding a_def b_def using sc at by (rule drop_split_at)
    have segs: "route_segments (drop pos r) = a # route_segments b"
      using nosep unfolding a_def [symmetric] by (subst split) (rule route_segments_split)
    have tk: "take (pos + sc) r = take pos r @ a"
      unfolding a_def by (simp add: take_add)
    show ?thesis
    proof (cases "i = level")
      case True
      then have "first_segments (nat (level - i + 1)) (drop pos r) = a"
        by (simp add: first_segments_def segs)
      then show ?thesis
        using Some True "1.prems" tk by (subst Level_loop.simps) simp
    next
      case False
      with "1.prems" have lt: "i < level" by simp
      have pos': "pos + sc + 1 \<le> length r" using sc by simp
      have IH: "Level_loop r level (pos + sc + 1) (i + 1)
                = take (pos + sc + 1) r @ first_segments (nat (level - (i + 1) + 1)) b"
        unfolding b_def
        using "1.IH" [OF "1.prems"(1) Some False pos'] lt "1.prems"(2) by simp
      have tk': "take (pos + sc + 1) r = take pos r @ a @ [rSeparator]"
        unfolding a_def using sc at by (rule take_split_at)
      define k where "k = nat (level - i - 1)"
      have k: "nat (level - i + 1) = Suc (Suc k)" "nat (level - (i + 1) + 1) = Suc k"
        unfolding k_def using lt by linarith+
      have ne: "take (Suc k) (route_segments b) \<noteq> []"
        by (cases "route_segments b") auto
      have "first_segments (nat (level - i + 1)) (drop pos r)
            = a @ rSeparator # first_segments (nat (level - (i + 1) + 1)) b"
        unfolding first_segments_def segs k using ne by (simp add: join_segments_Cons)
      then show ?thesis
        using Some False "1.prems"(1) IH tk' by (subst Level_loop.simps) simp
    qed
  qed
qed

lemma Level_loop_prefix:
  "Level_loop r level pos i = r
   \<or> (\<exists>k. Level_loop r level pos i = take k r \<and> k < length r \<and> r ! k = rSeparator)"
proof (induction r level pos i rule: Level_loop.induct)
  case (1 r level pos i)
  show ?case
  proof (cases "pos \<le> length r")
    case False
    then show ?thesis by (subst Level_loop.simps) simp
  next
    case le: True
    show ?thesis
    proof (cases "IndexRune (drop pos r) rSeparator")
      case None
      then show ?thesis using le by (subst Level_loop.simps) simp
    next
      case (Some sc)
      from IndexRune_Some [OF Some]
      have sc: "sc < length (drop pos r)" and at: "drop pos r ! sc = rSeparator" by auto
      then have k: "pos + sc < length r" "r ! (pos + sc) = rSeparator"
        using le by auto
      show ?thesis
      proof (cases "i = level")
        case True
        then have "Level_loop r level pos i = take (pos + sc) r"
          using Some le by (subst Level_loop.simps) simp
        then show ?thesis using k by blast
      next
        case False
        then have "Level_loop r level pos i = Level_loop r level (pos + sc + 1) (i + 1)"
          using Some le by (subst Level_loop.simps) simp
        then show ?thesis using "1.IH" [OF le Some False] by simp
      qed
    qed
  qed
qed

lemma digit_char_values:
  "digit_char 0 = CHR ''0''" "digit_char 1 = CHR ''1''" "digit_char 2 = CHR ''2''"
  "digit_char 3 = CHR ''3''" "digit_char 4 = CHR ''4''" "digit_char 5 = CHR ''5''"
  "digit_char 6 = CHR ''6''" "digit_char 7 = CHR ''7''" "digit_char 8 = CHR ''8''"
  "digit_char 9 = CHR ''9''" "digit_char (Suc 0) = CHR ''1''"
  by (simp_all add: digit_char_def char_of_def bit_0)

lemma byte_digit_char: "d < 10 \<Longrightarrow> byte (digit_char d) = 48 + d"
  by (simp add: byte_def digit_char_def)

lemma is_digit_digit_char: "d < 10 \<Longrightarrow> is_digit (digit_char d)"
  by (simp add: is_digit_def byte_digit_char)

lemma FormatUint_digits: "list_all is_digit (FormatUint n) \<and> FormatUint n \<noteq> []"
proof (induction n rule: FormatUint.induct)
  case (1 n)
  show ?case
  proof (cases "n < 10")
    case True
    then show ?thesis by (subst (1 2) FormatUint.simps) (simp add: is_digit_digit_char)
  next
    case False
    then show ?thesis
      using "1.IH" by (subst (1 2) FormatUint.simps) (simp add: is_digit_digit_char)
  qed
qed

lemma digits_value_Nil [simp]: "digits_value [] n = n"
  by (simp add: digits_value_def)

lemma digits_value_Cons [simp]:
  "digits_value (c # cs) n = digits_value cs (n * 10 + (byte c - 48))"
  by (simp add: digits_value_def)

lemma digits_value_snoc [simp]:
  "digits_value (cs @ [c]) n = digits_value cs n * 10 + (byte c - 48)"
  by (simp add: digits_value_def)

lemma digits_value_ge: "n \<le> digits_value cs n"
proof (induction cs arbitrary: n)
  case Nil
  then show ?case by simp
next
  case (Cons c cs)
  have "n \<le> n * 10 + (byte c - 48)" by simp
  also have "\<dots> \<le> digits_value cs (n * 10 + (byte c - 48))" by (rule Cons.IH)
  finally show ?case by simp
qed

lemma digits_value_FormatUint: "digits_value (FormatUint n) 0 = n"
proof (induction n rule: FormatUint.induct)
  case (1 n)
  show ?case
  proof (cases "n < 10")
    case True
    then show ?thesis by (subst FormatUint.simps) (simp add: byte_digit_char)
  next
    case False
    then show ?thesis
      using "1.IH" by (subst FormatUint.simps) (simp add: byte_digit_char)
  qed
qed

lemma ParseUint_loop_digits:
  "list_all is_digit cs \<Longrightarrow> digits_value cs n \<le> maxUint64 \<Longrightarrow>
   ParseUint_loop cs n = Inr (digits_value cs n)"
proof (induction cs arbitrary: n)
  case Nil
  then show ?case by simp
next
  case (Cons c cs)
  let ?n1 = "n * 10 + (byte c - 48)"
  from Cons.prems have dig: "is_digit c" and rest: "list_all is_digit cs"
    and bound: "digits_value cs ?n1 \<le> maxUint64" by simp_all
  have n1: "?n1 \<le> maxUint64"
    using digits_value_ge [of ?n1 cs] bound by simp
  then have "n * 10 \<le> maxUint64" by simp
  then have n: "\<not> maxUint64 div 10 + 1 \<le> n" by (simp add: maxUint64_def)
  show ?case
    using dig n n1 Cons.IH [OF rest bound] by (simp add: Let_def)
qed

lemma ParseUint_FormatUint: "n \<le> maxUint64 \<Longrightarrow> ParseUint (FormatUint n) = Inr n"
  using ParseUint_loop_digits [of "FormatUint n" 0] FormatUint_digits [of n]
  by (simp add: ParseUint_def digits_value_FormatUint)

lemma is_digit_not_sign: "is_digit c \<Longrightarrow> c \<noteq> CHR ''+'' \<and> c \<noteq> CHR ''-'' \<and> c \<noteq> rSeparator"
  by (auto simp: is_digit_def byte_def rSeparator_def)

lemma hd_FormatUint: "hd (FormatUint n) \<noteq> CHR ''+'' \<and> hd (FormatUint n) \<noteq> CHR ''-''"
proof -
  obtain c cs where "FormatUint n = c # cs"
    using FormatUint_digits [of n] by (cases "FormatUint n") auto
  then show ?thesis using FormatUint_digits [of n] by (auto dest: is_digit_not_sign)
qed

lemma ParseInt_FormatInt:
  assumes "- (2 ^ 63) \<le> i" "i < 2 ^ 63"
  shows "ParseInt (FormatInt i) = Inr i"
proof (cases "i < 0")
  case True
  have le: "nat (- i) \<le> 2 ^ 63" using assms(1) True by (simp add: nat_le_iff)
  then have "nat (- i) \<le> maxUint64" by (simp add: maxUint64_def)
  then have "ParseUint (FormatUint (nat (- i))) = Inr (nat (- i))"
    by (rule ParseUint_FormatUint)
  then show ?thesis using True le by (simp add: ParseInt_def FormatInt_def)
next
  case False
  have lt: "nat i < 2 ^ 63" using assms(2) False by (simp add: nat_less_iff)
  then have "nat i \<le> maxUint64" by (simp add: maxUint64_def)
  then have "ParseUint (FormatUint (nat i)) = Inr (nat i)"
    by (rule ParseUint_FormatUint)
  moreover have "FormatUint (nat i) \<noteq> []" using FormatUint_digits by simp
  ultimately show ?thesis
    using False lt hd_FormatUint [of "nat i"] by (simp add: ParseInt_def FormatInt_def)
qed

lemma FormatInt_no_sep: "rSeparator \<notin> set (FormatInt i)"
proof -
  have "rSeparator \<notin> set (FormatUint n)" for n
    using FormatUint_digits [of n] by (auto simp: list_all_iff dest: is_digit_not_sign)
  then show ?thesis by (simp add: FormatInt_def rSeparator_def)
qed

lemma FormatInt_ascii: "list_all (\<lambda>c. byte c < RuneSelf) (FormatInt i)"
proof -
  have "list_all (\<lambda>c. byte c < RuneSelf) (FormatUint n)" for n
    using FormatUint_digits [of n] by (auto simp: list_all_iff is_digit_def RuneSelf_def)
  then show ?thesis by (simp add: FormatInt_def RuneSelf_def byte_def)
qed

lemma FromScope_facts:
  "rSeparator \<notin> set (FromScope s)" "list_all (\<lambda>c. byte c < RuneSelf) (FromScope s)"
  "ValidBytes (FromScope s)" "s \<noteq> GroupID \<Longrightarrow> FromBytes (FromScope s) = s"
  by (cases s; simp add: rSeparator_def RuneSelf_def byte_def ValidBytes_def FromBytes_def)+

lemma take_append_eq: "take (length xs) (xs @ ys) = xs"
  by simp

lemma SplitFQ_assembled:
  assumes S: "rSeparator \<notin> set S" "list_all (\<lambda>c. byte c < RuneSelf) S" "ValidBytes S"
    and I: "rSeparator \<notin> set I" "list_all (\<lambda>c. byte c < RuneSelf) I" "ParseInt I = Inr v"
    and R: "list_all route_byte R" "Count R rSeparator = 2"
  shows "SplitFQ (S @ [rSeparator] @ I @ [rSeparator] @ R)
         = Inr \<lparr>Route = R, Scope = FromBytes S, ID = word_of_int v\<rparr>"
proof -
  let ?fq = "S @ [rSeparator] @ I @ [rSeparator] @ R"
  have cS: "Count S rSeparator = 0" and cI: "Count I rSeparator = 0"
    using S(1) I(1) by (auto simp: Count_def filter_empty_conv)
  have fq: "isFQ ?fq"
    using cS cI R(2) by (simp add: isFQ_def Levels_def)
  have "list_all (\<lambda>c. byte c < RuneSelf) R"
    using R(1) by (auto simp: list_all_iff route_byte_ascii)
  then have "list_all (\<lambda>c. byte c < RuneSelf) ?fq"
    using S(2) I(2) by (simp add: RuneSelf_def rSeparator_def byte_def)
  then have valid: "Route_Valid ?fq"
    unfolding Route_Valid_def by (rule ascii_utf8_Valid)
  have i1: "IndexRune ?fq rSeparator = Some (length S)"
    using IndexRune_append [OF S(1), of "I @ [rSeparator] @ R"] by simp
  have i2: "IndexRune (I @ [rSeparator] @ R) rSeparator = Some (length I)"
    using IndexRune_append [OF I(1), of R] by simp
  show ?thesis
    unfolding SplitFQ_def using fq valid i1 i2 S(3) I(3) by (simp add: Let_def)
qed

lemma FQ_valid:
  "IsValid p = None \<Longrightarrow>
   FQ p = Inr (FromScope (Scope p) @ [rSeparator]
               @ FormatInt (if Scope p = DefaultID \<and> 0 < sint (ID p) then 0 else sint (ID p))
               @ [rSeparator] @ Route p)"
  by (simp add: FQ_def StrScope_def Let_def)

lemma sint_64_range: "- (2 ^ 63) \<le> sint (w :: 64 word) \<and> sint w < 2 ^ 63"
  using sint_ge [of w] sint_lt [of w] by simp

lemma SplitFQ_FQ:
  assumes v: "IsValid p = None" and g: "Scope p \<noteq> GroupID"
  shows "\<exists>s. FQ p = Inr s
           \<and> SplitFQ s = Inr (if Scope p = DefaultID \<and> 0 < sint (ID p) then p\<lparr>ID := 0\<rparr> else p)"
proof -
  let ?i = "if Scope p = DefaultID \<and> 0 < sint (ID p) then 0 else sint (ID p)"
  have rng: "- (2 ^ 63) \<le> ?i \<and> ?i < 2 ^ 63"
    using sint_64_range [of "ID p"] by simp
  then have parse: "ParseInt (FormatInt ?i) = Inr ?i"
    using ParseInt_FormatInt [of ?i] by blast
  from v have R: "list_all route_byte (Route p)" "Count (Route p) rSeparator = 2"
    by (simp_all add: IsValid_None_iff)
  have "SplitFQ (FromScope (Scope p) @ [rSeparator] @ FormatInt ?i @ [rSeparator] @ Route p)
        = Inr \<lparr>Route = Route p, Scope = FromBytes (FromScope (Scope p)), ID = word_of_int ?i\<rparr>"
    using FromScope_facts(1-3) FormatInt_no_sep FormatInt_ascii parse R
    by (rule SplitFQ_assembled)
  moreover have "\<lparr>Route = Route p, Scope = FromBytes (FromScope (Scope p)), ID = word_of_int ?i\<rparr>
        = (if Scope p = DefaultID \<and> 0 < sint (ID p) then p\<lparr>ID := 0\<rparr> else p)"
    using g by (simp add: FromScope_facts(4))
  ultimately show ?thesis using FQ_valid [OF v] by simp
qed

lemma IndexRune_takeWhile:
  "IndexRune cs r = Some i \<Longrightarrow> take i cs = takeWhile (\<lambda>c. c \<noteq> r) cs"
proof (induction cs arbitrary: i)
  case Nil
  then show ?case by simp
next
  case (Cons c cs)
  then show ?case by (cases "c = r") (auto split: option.splits)
qed

lemma IndexRune_length_takeWhile:
  "IndexRune cs r = Some i \<Longrightarrow> length (takeWhile (\<lambda>c. c \<noteq> r) cs) = i"
  using IndexRune_takeWhile [of cs r i] IndexRune_Some [of cs r i]
  by (metis length_take min.absorb2 less_imp_le)

lemma ParseUint_loop_Inr: "ParseUint_loop cs n = Inr m \<Longrightarrow> list_all is_digit cs"
  by (induction cs arbitrary: n) (auto simp: Let_def split: if_splits)

lemma ParseInt_Inr: "ParseInt s = Inr v \<Longrightarrow> decimal_integer s"
proof -
  assume a: "ParseInt s = Inr v"
  then obtain c cs where s: "s = c # cs"
    by (cases s) (auto simp: ParseInt_def)
  show ?thesis
  proof (cases "c = CHR ''+'' \<or> c = CHR ''-''")
    case True
    with a s obtain un where "ParseUint cs = Inr un"
      by (auto simp: ParseInt_def Let_def split: sum.splits)
    then have "cs \<noteq> [] \<and> list_all is_digit cs"
      by (auto simp: ParseUint_def dest: ParseUint_loop_Inr split: if_splits)
    then show ?thesis using True s by (simp add: decimal_integer_def)
  next
    case False
    with a s obtain un where "ParseUint s = Inr un"
      by (auto simp: ParseInt_def Let_def split: sum.splits)
    then have "list_all is_digit s"
      by (auto simp: ParseUint_def dest: ParseUint_loop_Inr split: if_splits)
    then show ?thesis using False s by (simp add: decimal_integer_def)
  qed
qed

lemma SplitFQ_few_separators: "Count fq rSeparator < Levels + 1 \<Longrightarrow> isl (SplitFQ fq)"
  by (simp add: SplitFQ_def isFQ_def)

lemma SplitFQ_unknown_scope: "\<not> ValidBytes (scope_part fq) \<Longrightarrow> isl (SplitFQ fq)"
  by (auto simp: SplitFQ_def scope_part_def Let_def dest: IndexRune_takeWhile
      split: option.splits sum.splits)

lemma SplitFQ_bad_id: "\<not> decimal_integer (id_part fq) \<Longrightarrow> isl (SplitFQ fq)"
proof (rule ccontr)
  assume nd: "\<not> decimal_integer (id_part fq)" and "\<not> isl (SplitFQ fq)"
  then obtain q where q: "SplitFQ fq = Inr q" by (cases "SplitFQ fq") auto
  then obtain fi fi' v where fi: "IndexRune fq rSeparator = Some fi"
    and fi': "IndexRune (drop (fi + 1) fq) rSeparator = Some fi'"
    and v: "ParseInt (take fi' (drop (fi + 1) fq)) = Inr v"
    by (auto simp: SplitFQ_def Let_def split: if_splits option.splits sum.splits)
  have "length (scope_part fq) = fi"
    unfolding scope_part_def using fi by (rule IndexRune_length_takeWhile)
  then have "id_part fq = take fi' (drop (fi + 1) fq)"
    unfolding id_part_def using IndexRune_takeWhile [OF fi'] by simp
  then show False using nd ParseInt_Inr [OF v] by simp
qed

section \<open>Properties of the scope permissions\<close>

lemma test_bit: "(bits AND push_bit i 1 \<noteq> 0) = bit (bits :: Perm) i"
  by (simp add: push_bit_of_1 and_exp_eq_0_iff_not_bit)

lemma Human_fold:
  "foldl (\<lambda>ret i. if bits AND push_bit i 1 \<noteq> 0 then ret @ [f i] else ret) acc xs
   = acc @ map f (filter (bit (bits :: Perm)) xs)"
  by (induction xs arbitrary: acc) (simp_all add: and_exp_eq_0_iff_not_bit)

lemma Perm_Human_eq: "Perm_Human T bits = set_scope_names T bits"
  using Human_fold [of bits "Type_String T" "[]" "[0..<maxType T]"]
  by (simp add: Perm_Human_def set_scope_names_def)

lemma String_fold:
  "foldl (\<lambda>buf i. if bits AND push_bit i 1 \<noteq> 0 then buf @ f i @ [CHR '',''] else buf) acc xs
   = acc @ concat (map (\<lambda>n. n @ [CHR '','']) (map f (filter (bit (bits :: Perm)) xs)))"
  by (induction xs arbitrary: acc) (simp_all add: and_exp_eq_0_iff_not_bit)

lemma concat_commas:
  "names \<noteq> [] \<Longrightarrow> concat (map (\<lambda>n. n @ [CHR '','']) names) = comma_join names @ [CHR '','']"
proof (induction names rule: comma_join.induct)
  case 1
  then show ?case by simp
next
  case (2 s)
  then show ?case by simp
next
  case (3 s v va)
  then show ?case by simp
qed

lemma Perm_String_eq:
  "Perm_String T bits =
     (if set_scope_names T bits = [] then Inl TruncationOutOfRange
      else Inr (comma_join (set_scope_names T bits)))"
proof (cases "set_scope_names T bits = []")
  case True
  then show ?thesis
    using String_fold [of bits "Type_String T" "[]" "[0..<maxType T]"]
    by (simp add: Perm_String_def set_scope_names_def)
next
  case False
  then show ?thesis
    using concat_commas [OF False] String_fold [of bits "Type_String T" "[]" "[0..<maxType T]"]
    by (simp add: Perm_String_def set_scope_names_def Let_def comp_def)
qed

lemma upt_split: "a \<le> b \<Longrightarrow> b < c \<Longrightarrow> [a..<c] = [a..<b] @ b # [Suc b..<c]"
  by (metis le_add_diff_inverse less_imp_le upt_add_eq_append upt_conv_Cons)

lemma filter_three:
  assumes "d < w" "w < s" "s < m"
  shows "filter (\<lambda>i. i = d \<or> i = w \<or> i = s) [0..<m] = [d, w, s]"
proof -
  have "[0..<m] = [0..<d] @ d # [Suc d..<w] @ w # [Suc w..<s] @ s # [Suc s..<m]"
    using assms upt_split [of 0 d m] upt_split [of "Suc d" w m] upt_split [of "Suc w" s m]
    by simp
  moreover have "filter (\<lambda>i. i = d \<or> i = w \<or> i = s) [0..<d] = []"
    using assms by (auto simp: filter_empty_conv)
  moreover have "filter (\<lambda>i. i = d \<or> i = w \<or> i = s) [Suc d..<w] = []"
    using assms by (auto simp: filter_empty_conv)
  moreover have "filter (\<lambda>i. i = d \<or> i = w \<or> i = s) [Suc w..<s] = []"
    using assms by (auto simp: filter_empty_conv)
  moreover have "filter (\<lambda>i. i = d \<or> i = w \<or> i = s) [Suc s..<m] = []"
    using assms by (auto simp: filter_empty_conv)
  ultimately show ?thesis by simp
qed

lemma bit_All:
  assumes "d < 16" "w < 16" "s < 16"
  shows "bit (Perm_Set 0 [d, w, s]) i \<longleftrightarrow> i = d \<or> i = w \<or> i = s"
  using assms by (auto simp: Perm_Set_def push_bit_of_1 bit_or_iff bit_exp_iff)

lemma hierarchy_types: "hierarchy types_from_0" "hierarchy types_from_1"
  by (simp_all add: hierarchy_def types_from_0_def types_from_1_def type_names_def)

lemma names_All:
  assumes "hierarchy T"
  shows "set_scope_names T (Perm_All T 0) = [''Default'', ''Website'', ''Store'']"
proof -
  from assms have ord: "Default T < Website T" "Website T < Store T" "Store T < maxType T"
    and small: "Default T < 16" "Website T < 16" "Store T < 16"
    and names: "Type_String T (Default T) = ''Default''" "Type_String T (Website T) = ''Website''"
      "Type_String T (Store T) = ''Store''"
    by (auto simp: hierarchy_def)
  have "bit (Perm_All T 0) = (\<lambda>i. i = Default T \<or> i = Website T \<or> i = Store T)"
    unfolding Perm_All_def using bit_All [OF small] by (intro ext) simp
  then have "filter (bit (Perm_All T 0)) [0..<maxType T] = [Default T, Website T, Store T]"
    using filter_three [OF ord] by simp
  then show ?thesis by (simp add: set_scope_names_def names)
qed

lemma All_not_zero:
  assumes "hierarchy T"
  shows "Perm_All T 0 \<noteq> 0"
proof
  assume "Perm_All T 0 = 0"
  then have "set_scope_names T (Perm_All T 0) = []"
    by (simp add: set_scope_names_def)
  then show False using names_All [OF assms] by simp
qed

section \<open>Properties of publish and subscribe\<close>

lemma sendMsgs_sent:
  "sendMsgs env subs p w = (evict, w', sent) \<Longrightarrow>
   map fst sent = map fst subs \<and> list_all (\<lambda>d. fst (snd d) = p) sent \<and> evict = failed_ids sent"
proof (induction subs arbitrary: w evict w' sent)
  case Nil
  then show ?case by (simp add: failed_ids_def)
next
  case (Cons a subs)
  obtain sid sub where a: "a = (sid, sub)" by (cases a)
  obtain err w1 where r: "sendMsgRecoverable env sid sub p w = (err, w1)"
    by (cases "sendMsgRecoverable env sid sub p w")
  obtain ev w2 st where rest: "sendMsgs env subs p w1 = (ev, w2, st)"
    by (cases "sendMsgs env subs p w1")
  from Cons.prems a r rest
  have "evict = (if err \<noteq> None then [sid] else []) @ ev" "sent = (sid, p, err) # st"
    by simp_all
  then show ?case using Cons.IH [OF rest] a by (auto simp: failed_ids_def)
qed

lemma sendBucket_sent:
  assumes "sendBucket env s h p w = (evict, w', sent)"
  shows "received sid sent = bucket_count s h sid"
    and "evict = failed_ids sent"
    and "list_all (\<lambda>d. fst (snd d) = p) sent"
    and "map_of (subMap s) h = Some subs \<Longrightarrow> map fst sent = map fst subs"
proof -
  have "received sid sent = bucket_count s h sid \<and> evict = failed_ids sent
        \<and> list_all (\<lambda>d. fst (snd d) = p) sent
        \<and> (\<forall>subs. map_of (subMap s) h = Some subs \<longrightarrow> map fst sent = map fst subs)"
  proof (cases "map_of (subMap s) h")
    case None
    with assms show ?thesis
      by (simp add: sendBucket_def received_def bucket_count_def failed_ids_def)
  next
    case (Some subs)
    with assms have sm: "sendMsgs env subs p w = (evict, w', sent)"
      by (simp add: sendBucket_def)
    from sendMsgs_sent [OF sm]
    have ids: "map fst sent = map fst subs" and rest: "list_all (\<lambda>d. fst (snd d) = p) sent"
      "evict = failed_ids sent" by simp_all
    have "length (filter (\<lambda>d. fst d = sid) sent) = length (filter (\<lambda>x. x = sid) (map fst sent))"
      by (simp add: filter_map comp_def)
    also have "\<dots> = length (filter (\<lambda>x. fst x = sid) subs)"
      unfolding ids by (simp add: filter_map comp_def)
    finally show ?thesis using Some ids rest
      by (simp add: received_def bucket_count_def)
  qed
  then show "received sid sent = bucket_count s h sid" "evict = failed_ids sent"
    "list_all (\<lambda>d. fst (snd d) = p) sent"
    "map_of (subMap s) h = Some subs \<Longrightarrow> map fst sent = map fst subs"
    by simp_all
qed

lemma received_append [simp]: "received sid (xs @ ys) = received sid xs + received sid ys"
  by (simp add: received_def)

lemma received_Nil [simp]: "received sid [] = 0"
  by (simp add: received_def)

lemma failed_ids_append [simp]: "failed_ids (xs @ ys) = failed_ids xs @ failed_ids ys"
  by (simp add: failed_ids_def)

lemma readMapAndSend_sent:
  assumes "readMapAndSend env s p level w = (evict, w', sent)"
  shows "received sid sent = 2 * bucket_count s (Hash env p level) sid"
    and "evict = failed_ids sent"
    and "list_all (\<lambda>d. fst (snd d) = p) sent"
    and "map_of (subMap s) (Hash env p level) = Some subs \<Longrightarrow> set (map fst subs) \<subseteq> set (map fst sent)"
proof -
  obtain e1 w1 s1 where b1: "sendBucket env s (Hash env p level) p w = (e1, w1, s1)"
    by (cases "sendBucket env s (Hash env p level) p w")
  obtain e2 w2 s2 where b2: "sendBucket env s (Hash env p level) p w1 = (e2, w2, s2)"
    by (cases "sendBucket env s (Hash env p level) p w1")
  from assms b1 b2 have ev: "evict = e1 @ e2" and st: "sent = s1 @ s2"
    by (simp_all add: readMapAndSend_def)
  show "received sid sent = 2 * bucket_count s (Hash env p level) sid"
    using sendBucket_sent(1) [OF b1] sendBucket_sent(1) [OF b2] st by simp
  show "evict = failed_ids sent"
    using sendBucket_sent(2) [OF b1] sendBucket_sent(2) [OF b2] ev st by simp
  show "list_all (\<lambda>d. fst (snd d) = p) sent"
    using sendBucket_sent(3) [OF b1] sendBucket_sent(3) [OF b2] st by simp
  show "set (map fst subs) \<subseteq> set (map fst sent)"
    if "map_of (subMap s) (Hash env p level) = Some subs"
    using sendBucket_sent(4) [OF b1 that] st by auto
qed

lemma bucket_count_empty: "subMap s = [] \<Longrightarrow> bucket_count s h sid = 0"
  by (simp add: bucket_count_def)

lemma publish_path_sent:
  assumes "publish_path env s p w = (s', w', sent)"
  shows "received sid sent
         = 2 * (bucket_count s (Hash env p 1) sid + bucket_count s (Hash env p 2) sid
                + bucket_count s (Hash env p (- 1)) sid)"
    and "s' = foldl Unsubscribe s (failed_ids sent)"
    and "list_all (\<lambda>d. fst (snd d) = p) sent"
proof -
  have "received sid sent
         = 2 * (bucket_count s (Hash env p 1) sid + bucket_count s (Hash env p 2) sid
                + bucket_count s (Hash env p (- 1)) sid)
        \<and> s' = foldl Unsubscribe s (failed_ids sent)
        \<and> list_all (\<lambda>d. fst (snd d) = p) sent"
  proof (cases "subMap s = []")
    case True
    with assms show ?thesis
      by (simp add: publish_path_def bucket_count_empty failed_ids_def)
  next
    case False
    obtain e1 w1 s1 where r1: "readMapAndSend env s p 1 w = (e1, w1, s1)"
      by (cases "readMapAndSend env s p 1 w")
    obtain e2 w2 s2 where r2: "readMapAndSend env s p 2 w1 = (e2, w2, s2)"
      by (cases "readMapAndSend env s p 2 w1")
    obtain e3 w3 s3 where r3: "readMapAndSend env s p (- 1) w2 = (e3, w3, s3)"
      by (cases "readMapAndSend env s p (- 1) w2")
    from assms False r1 r2 r3
    have s': "s' = foldl Unsubscribe s (e1 @ e2 @ e3)" and st: "sent = s1 @ s2 @ s3"
      by (simp_all add: publish_path_def)
    show ?thesis
      using readMapAndSend_sent(1) [OF r1, of sid] readMapAndSend_sent(1) [OF r2, of sid]
        readMapAndSend_sent(1) [OF r3, of sid]
        readMapAndSend_sent(2,3) [OF r1] readMapAndSend_sent(2,3) [OF r2]
        readMapAndSend_sent(2,3) [OF r3] s' st
      by simp
  qed
  then show "received sid sent
         = 2 * (bucket_count s (Hash env p 1) sid + bucket_count s (Hash env p 2) sid
                + bucket_count s (Hash env p (- 1)) sid)"
    "s' = foldl Unsubscribe s (failed_ids sent)"
    "list_all (\<lambda>d. fst (snd d) = p) sent"
    by simp_all
qed

lemma Subscribe_fresh:
  "\<not> IsEmpty env r \<Longrightarrow>
   Subscribe env newPubSub r mr
   = (Inr 1, \<lparr>subMap = [(Hash32 env r, [(1, mr)])], subAutoInc = 1\<rparr>)"
  by (simp add: Subscribe_def newPubSub_def)

lemma delete_filter: "AList.delete k al = filter (\<lambda>x. fst x \<noteq> k) al"
  by (induction al) (auto simp: AList.delete_eq)

lemma map_of_None_filter: "map_of subs k = None \<Longrightarrow> filter (\<lambda>x. fst x \<noteq> k) subs = subs"
  by (induction subs) (auto split: if_splits)

lemma notin_filter: "k \<notin> fst ` set xs \<Longrightarrow> filter (\<lambda>x. fst x \<noteq> k) xs = xs"
  by (induction xs) auto

lemma Unsubscribe_loop_entries:
  "distinct (map fst (concat (map snd m))) \<Longrightarrow>
   concat (map snd (Unsubscribe_loop m k)) = filter (\<lambda>x. fst x \<noteq> k) (concat (map snd m))"
proof (induction m)
  case Nil
  then show ?case by simp
next
  case (Cons b m)
  obtain path subs where b: "b = (path, subs)" by (cases b)
  from Cons.prems b have d: "distinct (map fst (concat (map snd m)))"
    and disj: "fst ` set subs \<inter> fst ` set (concat (map snd m)) = {}"
    by auto
  show ?case
  proof (cases "map_of subs k = None")
    case True
    then show ?thesis
      using b Cons.IH [OF d] by (simp add: map_of_None_filter)
  next
    case False
    then have "k \<in> fst ` set subs" by (auto simp: map_of_eq_None_iff)
    with disj have "k \<notin> fst ` set (concat (map snd m))" by auto
    then have rest: "filter (\<lambda>x. fst x \<noteq> k) (concat (map snd m)) = concat (map snd m)"
      by (rule notin_filter)
    show ?thesis
      using False b rest by (auto simp: delete_filter)
  qed
qed

lemma Unsubscribe_subscriptions:
  assumes "ids_distinct s"
  shows "subscriptions (Unsubscribe s k) = filter (\<lambda>x. fst x \<noteq> k) (subscriptions s)"
    and "ids_distinct (Unsubscribe s k)"
proof -
  from assms have d: "distinct (map fst (concat (map snd (subMap s))))"
    by (simp add: ids_distinct_def subscription_ids_def subscriptions_def)
  show eq: "subscriptions (Unsubscribe s k) = filter (\<lambda>x. fst x \<noteq> k) (subscriptions s)"
    using Unsubscribe_loop_entries [OF d] by (simp add: subscriptions_def Unsubscribe_def)
  show "ids_distinct (Unsubscribe s k)"
    using d unfolding ids_distinct_def subscription_ids_def eq
    by (simp add: subscriptions_def distinct_map_filter)
qed

lemma foldl_Unsubscribe:
  "ids_distinct s \<Longrightarrow>
   subscriptions (foldl Unsubscribe s evict)
     = filter (\<lambda>x. fst x \<notin> set evict) (subscriptions s)
   \<and> ids_distinct (foldl Unsubscribe s evict)"
proof (induction evict arbitrary: s)
  case Nil
  then show ?case by simp
next
  case (Cons k evict)
  from Cons.IH [OF Unsubscribe_subscriptions(2) [OF Cons.prems, of k]]
    Unsubscribe_subscriptions(1) [OF Cons.prems, of k]
  show ?case by (auto intro: filter_cong)
qed

lemma bucket_subset:
  "map_of (subMap s) h = Some subs \<Longrightarrow> set subs \<subseteq> set (subscriptions s)"
  by (auto simp: subscriptions_def dest!: map_of_SomeD intro: bexI [where x = "(h, subs)"])

lemma bucket_count_absent:
  "sid \<notin> set (subscription_ids s) \<Longrightarrow> bucket_count s h sid = 0"
proof (cases "map_of (subMap s) h")
  case None
  then show ?thesis by (simp add: bucket_count_def)
next
  case (Some subs)
  assume "sid \<notin> set (subscription_ids s)"
  then have "sid \<notin> fst ` set subs"
    using bucket_subset [OF Some] by (auto simp: subscription_ids_def)
  then have "filter (\<lambda>x. fst x = sid) subs = []"
    by (auto simp: filter_empty_conv)
  then show ?thesis using Some by (simp add: bucket_count_def)
qed

lemma sendMsgRecoverable_error:
  "fst (sendMsgRecoverable env sid sl p w) \<noteq> None
   \<longleftrightarrow> fst (MessageConfig env sl p w) \<noteq> Returns None"
  by (cases "MessageConfig env sl p w"; cases "fst (MessageConfig env sl p w)")
    (auto simp: sendMsgRecoverable_def)

lemma route_env_simps:
  "IsEmpty route_env p = (p = [])"
  "Hash32 route_env p = fnv32a p"
  "Hash route_env p level = fnv32a (if level < 0 then p else first_segments (nat level) p)"
  "MessageConfig route_env r p w = (r, w)"
  by (simp_all add: route_env_def)

lemma fnv_values:
  "fnv32a ''system'' \<noteq> fnv32a ''system/smtp''"
  "fnv32a ''system'' \<noteq> fnv32a ''system/smtp/host''"
  "fnv32a ''system'' \<noteq> fnv32a ''other''"
  "fnv32a ''system'' \<noteq> fnv32a ''other/kk''"
  "fnv32a ''system'' \<noteq> fnv32a ''other/kk/vv''"
  by (simp_all add: fnv32a_def byte_def)

lemma first_segments_examples:
  "first_segments 1 ''system/smtp/host'' = ''system''"
  "first_segments 2 ''system/smtp/host'' = ''system/smtp''"
  "first_segments 1 ''other/kk/vv'' = ''other''"
  "first_segments 2 ''other/kk/vv'' = ''other/kk''"
  "first_segments (Suc 0) ''system/smtp/host'' = ''system''"
  "first_segments (Suc 0) ''other/kk/vv'' = ''other''"
  by (simp_all add: first_segments_def rSeparator_def numeral_2_eq_2)

lemma fnv_values2:
  "fnv32a ''system/smtp'' \<noteq> fnv32a ''system/smtp/host''"
  by (simp add: fnv32a_def byte_def)

lemma hash_levels:
  "Hash route_env ''system/smtp/host'' 1 = fnv32a ''system''"
  "Hash route_env ''system/smtp/host'' 2 = fnv32a ''system/smtp''"
  "Hash route_env ''system/smtp/host'' (- 1) = fnv32a ''system/smtp/host''"
  by (simp_all add: route_env_simps first_segments_examples)

lemma bucket_system:
  "sendBucket route_env three_subscribers (fnv32a ''system'') p ()
   = ([1], (), [(1, p, Some ''boom''), (2, p, None)])"
  by (simp add: sendBucket_def three_subscribers_def sendMsgRecoverable_def route_env_simps)

lemma bucket_smtp:
  "sendBucket route_env three_subscribers (fnv32a ''system/smtp'') p ()
   = ([3], (), [(3, p, Some ''refused'')])"
  using fnv_values(1)
  by (simp add: sendBucket_def three_subscribers_def sendMsgRecoverable_def route_env_simps)

lemma bucket_host:
  "sendBucket route_env three_subscribers (fnv32a ''system/smtp/host'') p () = ([], (), [])"
  using fnv_values(2) fnv_values2
  by (simp add: sendBucket_def three_subscribers_def)

lemma read_three:
  "readMapAndSend route_env three_subscribers ''system/smtp/host'' 1 ()
   = ([1, 1], (), [(1, ''system/smtp/host'', Some ''boom''), (2, ''system/smtp/host'', None),
       (1, ''system/smtp/host'', Some ''boom''), (2, ''system/smtp/host'', None)])"
  "readMapAndSend route_env three_subscribers ''system/smtp/host'' 2 ()
   = ([3, 3], (), [(3, ''system/smtp/host'', Some ''refused''),
       (3, ''system/smtp/host'', Some ''refused'')])"
  "readMapAndSend route_env three_subscribers ''system/smtp/host'' (- 1) () = ([], (), [])"
  by (simp_all add: readMapAndSend_def hash_levels bucket_system bucket_smtp bucket_host)

lemma unsub_1:
  "Unsubscribe three_subscribers 1
   = \<lparr>subMap = [(fnv32a ''system'', [(2, Returns None)]),
                (fnv32a ''system/smtp'', [(3, Returns (Some ''refused''))])],
      subAutoInc = 3\<rparr>"
  by (simp add: Unsubscribe_def three_subscribers_def AList.delete_eq)

lemma unsub_1_again:
  "Unsubscribe \<lparr>subMap = [(fnv32a ''system'', [(2, Returns None)]),
                (fnv32a ''system/smtp'', [(3, Returns (Some ''refused''))])],
      subAutoInc = 3\<rparr> 1
   = \<lparr>subMap = [(fnv32a ''system'', [(2, Returns None)]),
                (fnv32a ''system/smtp'', [(3, Returns (Some ''refused''))])],
      subAutoInc = 3\<rparr>"
  by (simp add: Unsubscribe_def AList.delete_eq)

lemma unsub_3:
  "Unsubscribe \<lparr>subMap = [(fnv32a ''system'', [(2, Returns None)]),
                (fnv32a ''system/smtp'', [(3, Returns (Some ''refused''))])],
      subAutoInc = 3\<rparr> 3
   = \<lparr>subMap = [(fnv32a ''system'', [(2 :: int, Returns None)])], subAutoInc = 3\<rparr>"
  by (simp add: Unsubscribe_def AList.delete_eq)

lemma unsub_3_again:
  "Unsubscribe \<lparr>subMap = [(fnv32a ''system'', [(2, Returns None)])], subAutoInc = 3\<rparr> 3
   = \<lparr>subMap = [(fnv32a ''system'', [(2 :: int, Returns None)])], subAutoInc = 3\<rparr>"
  by (simp add: Unsubscribe_def AList.delete_eq)

lemma three_nonempty: "length (subMap three_subscribers) \<noteq> 0"
  by (simp add: three_subscribers_def)

lemma publish_three:
  "publish_path route_env three_subscribers ''system/smtp/host'' ()
   = (\<lparr>subMap = [(fnv32a ''system'', [(2, Returns None)])], subAutoInc = 3\<rparr>, (),
      [(1, ''system/smtp/host'', Some ''boom''), (2, ''system/smtp/host'', None),
       (1, ''system/smtp/host'', Some ''boom''), (2, ''system/smtp/host'', None),
       (3, ''system/smtp/host'', Some ''refused''), (3, ''system/smtp/host'', Some ''refused'')])"
  unfolding publish_path_def
  using three_nonempty
  by (simp add: read_three unsub_1 unsub_1_again unsub_3 unsub_3_again)

lemma bucket_after:
  "sendBucket route_env \<lparr>subMap = [(fnv32a ''system'', [(2, Returns None)])], subAutoInc = 3\<rparr>
     (fnv32a ''system'') p ()
   = ([], (), [(2, p, None)])"
  "sendBucket route_env \<lparr>subMap = [(fnv32a ''system'', [(2, Returns None)])], subAutoInc = 3\<rparr>
     (fnv32a ''system/smtp'') p ()
   = ([], (), [])"
  "sendBucket route_env \<lparr>subMap = [(fnv32a ''system'', [(2, Returns None)])], subAutoInc = 3\<rparr>
     (fnv32a ''system/smtp/host'') p ()
   = ([], (), [])"
  using fnv_values(1,2)
  by (simp_all add: sendBucket_def sendMsgRecoverable_def route_env_simps)

lemma publish_three_next:
  "publish_path route_env \<lparr>subMap = [(fnv32a ''system'', [(2, Returns None)])], subAutoInc = 3\<rparr>
     ''system/smtp/host'' ()
   = (\<lparr>subMap = [(fnv32a ''system'', [(2, Returns None)])], subAutoInc = 3\<rparr>, (),
      [(2, ''system/smtp/host'', None), (2, ''system/smtp/host'', None)])"
  by (simp add: publish_path_def readMapAndSend_def hash_levels bucket_after)

section \<open>Properties of the SQL table backend\<close>

text \<open>
  The one case in which \<^verbatim>\<open>Value\<close> returns \<^verbatim>\<open>errKeyNotFound\<close>: the row exists and its value
  is \<^verbatim>\<open>NULL\<close>. A row with a value gives the value.
\<close>

lemma Value_present_row:
  assumes "Read_Stmt_error dbs = None"
    and "IsValid key = None"
    and "table dbs (FromScope (Scope key), sint (ID key), Route key) = Some data"
  shows "Value dbs key = (case data of None \<Rightarrow> Inl errKeyNotFound | Some str \<Rightarrow> Inr str)"
  using assms by (simp add: Value_def Level_def QueryRow_Scan_def)

lemmas path_eval =
  IsValid_def Route_IsEmpty_def Route_Valid_def byte_def RuneSelf_def rSeparator_def Levels_def

section \<open>Claims on routes and paths\<close>

text \<open>
  Claim C3. The claim: \<^verbatim>\<open>IsValid\<close> accepts exactly the routes with two separators,
  every segment at least two characters long and a total length of at least eight, so a
  route with a trailing separator or a shorter segment is rejected. The comment of
  \<^verbatim>\<open>IsValid\<close> promises the same ("Minimal length per part 2 characters"), but the
  function looks at the bytes, the number of separators and the total length only:
  every route of allowed bytes with two separators and at least eight bytes is accepted,
  whatever the length of its segments. The instances are the route \<^verbatim>\<open>a/b/cdefg\<close>, whose
  first two segments have one character, and the route \<^verbatim>\<open>aaaaaa//\<close>, which ends in a
  separator and has two empty segments.
\<close>

theorem IsValid_ignores_segment_length:
  assumes "list_all route_byte (Route p)"
    and "Count (Route p) rSeparator = 2"
    and "8 \<le> length (Route p)"
  shows "IsValid p = None"
  using assms by (simp add: IsValid_None_iff)

theorem IsValid_ignores_segment_length_witness:
  "IsValid \<lparr>Route = ''a/b/cdefg'', Scope = DefaultID, ID = 0\<rparr> = None
   \<and> route_segments ''a/b/cdefg'' = [''a'', ''b'', ''cdefg'']
   \<and> IsValid \<lparr>Route = ''aaaaaa//'', Scope = DefaultID, ID = 0\<rparr> = None
   \<and> route_segments ''aaaaaa//'' = [''aaaaaa'', '''', '''']"
proof -
  have "IsValid \<lparr>Route = ''a/b/cdefg'', Scope = DefaultID, ID = 0\<rparr> = None"
    by (rule IsValid_ignores_segment_length)
      (simp_all add: route_byte_def byte_def rSeparator_def)
  moreover have "IsValid \<lparr>Route = ''aaaaaa//'', Scope = DefaultID, ID = 0\<rparr> = None"
    by (rule IsValid_ignores_segment_length)
      (simp_all add: route_byte_def byte_def rSeparator_def)
  ultimately show ?thesis by (simp add: rSeparator_def)
qed

text \<open>
  Claim C6. The claim: \<^verbatim>\<open>FQ\<close> of a Default-scoped path is \<^verbatim>\<open>default/0/<route>\<close> whatever
  the id, negative ids included. The comment of \<^verbatim>\<open>FQ\<close> says so as well ("If scope is
  equal to scope.DefaultID and ID is not zero then ID gets set to zero"), but the test in
  the code is \<^verbatim>\<open>p.ID > 0\<close>: a negative id of a valid Default-scoped path is written
  out as it is, minus sign first. The instance is the id \<open>-1\<close>.
\<close>

theorem FQ_negative_default_id:
  assumes "IsValid p = None" and "Scope p = DefaultID" and "sint (ID p) < 0"
  shows "FQ p = Inr (''default/-'' @ FormatUint (nat (- sint (ID p))) @ ''/'' @ Route p)"
  using assms by (simp add: FQ_valid FormatInt_def rSeparator_def)

theorem FQ_negative_default_id_witness:
  "FQ \<lparr>Route = ''aa/bb/cc'', Scope = DefaultID, ID = - 1\<rparr> = Inr ''default/-1/aa/bb/cc''"
proof -
  have "IsValid \<lparr>Route = ''aa/bb/cc'', Scope = DefaultID, ID = - 1\<rparr> = None"
    by (simp add: path_eval)
  from FQ_negative_default_id [OF this]
  show ?thesis by (simp add: FormatUint.simps digit_char_values)
qed

text \<open>
  Claim C2. For every valid route, every supported scope (Default, Website or Store) and
  every id, \<^verbatim>\<open>FQ\<close> succeeds and \<^verbatim>\<open>SplitFQ\<close> of its result gives back the route and the
  scope, with the id that \<^verbatim>\<open>FQ\<close> wrote; the path read back and the original path are
  equal once the id of a Default-scoped path is set to zero. \<^verbatim>\<open>SplitFQ\<close> fails on an
  input with fewer than \<open>Levels + 1\<close> separators, on a scope prefix that is none of
  \<^verbatim>\<open>default\<close>, \<^verbatim>\<open>websites\<close>, \<^verbatim>\<open>stores\<close>, and on an id that is not a decimal integer.
\<close>

theorem SplitFQ_inverts_FQ:
  "(IsValid p = None \<and> supported_scope (Scope p) \<longrightarrow>
      (\<exists>s q. FQ p = Inr s \<and> SplitFQ s = Inr q
             \<and> Route q = Route p \<and> Scope q = Scope p
             \<and> ID q = (if Scope p = DefaultID \<and> 0 < sint (ID p) then 0 else ID p)
             \<and> canonical q = canonical p))
   \<and> (Count fq rSeparator < Levels + 1 \<longrightarrow> isl (SplitFQ fq))
   \<and> (scope_part fq \<noteq> ''default'' \<and> scope_part fq \<noteq> ''websites''
        \<and> scope_part fq \<noteq> ''stores'' \<longrightarrow> isl (SplitFQ fq))
   \<and> (\<not> decimal_integer (id_part fq) \<longrightarrow> isl (SplitFQ fq))"
proof -
  have rt: "\<exists>s q. FQ p = Inr s \<and> SplitFQ s = Inr q
             \<and> Route q = Route p \<and> Scope q = Scope p
             \<and> ID q = (if Scope p = DefaultID \<and> 0 < sint (ID p) then 0 else ID p)
             \<and> canonical q = canonical p"
    if v: "IsValid p = None" and s: "supported_scope (Scope p)"
  proof -
    from s have "Scope p \<noteq> GroupID" by (auto simp: supported_scope_def)
    from SplitFQ_FQ [OF v this] obtain s where
      "FQ p = Inr s"
      "SplitFQ s = Inr (if Scope p = DefaultID \<and> 0 < sint (ID p) then p\<lparr>ID := 0\<rparr> else p)"
      by blast
    then show ?thesis by (auto simp: canonical_def)
  qed
  have sc: "isl (SplitFQ fq)"
    if "scope_part fq \<noteq> ''default'' \<and> scope_part fq \<noteq> ''websites''
        \<and> scope_part fq \<noteq> ''stores''"
    using that by (intro SplitFQ_unknown_scope) (simp add: ValidBytes_def)
  from rt sc show ?thesis
    using SplitFQ_few_separators [of fq] SplitFQ_bad_id [of fq] by blast
qed

theorem SplitFQ_inverts_FQ_witness:
  "IsValid \<lparr>Route = ''catalog/frontend/list_allow_all'', Scope = StoreID, ID = 5\<rparr> = None
   \<and> FQ \<lparr>Route = ''catalog/frontend/list_allow_all'', Scope = StoreID, ID = 5\<rparr>
       = Inr ''stores/5/catalog/frontend/list_allow_all''
   \<and> SplitFQ ''stores/5/catalog/frontend/list_allow_all''
       = Inr \<lparr>Route = ''catalog/frontend/list_allow_all'', Scope = StoreID, ID = 5\<rparr>
   \<and> isl (SplitFQ ''stores/1/aa/bb'')
   \<and> isl (SplitFQ ''group/1/aa/bb/cc'')
   \<and> isl (SplitFQ ''stores/x1/aa/bb/cc'')"
proof -
  let ?p = "\<lparr>Route = ''catalog/frontend/list_allow_all'', Scope = StoreID, ID = 5\<rparr>"
  have v: "IsValid ?p = None"
    by (simp add: path_eval)
  have fq: "FQ ?p = Inr ''stores/5/catalog/frontend/list_allow_all''"
    using v by (simp add: FQ_valid FormatInt_def FormatUint.simps digit_char_values rSeparator_def)
  have "supported_scope (Scope ?p)" by (simp add: supported_scope_def)
  with v SplitFQ_inverts_FQ [of ?p "[]"] obtain s q where
    "FQ ?p = Inr s" "SplitFQ s = Inr q" "Route q = Route ?p" "Scope q = Scope ?p"
    "ID q = (if Scope ?p = DefaultID \<and> 0 < sint (ID ?p) then 0 else ID ?p)"
    by blast
  with fq have again: "SplitFQ ''stores/5/catalog/frontend/list_allow_all'' = Inr ?p"
    by (cases q) simp
  have few: "isl (SplitFQ ''stores/1/aa/bb'')"
    using SplitFQ_inverts_FQ [of ?p "''stores/1/aa/bb''"]
    by (simp add: Levels_def rSeparator_def)
  have unk: "isl (SplitFQ ''group/1/aa/bb/cc'')"
    using SplitFQ_inverts_FQ [of ?p "''group/1/aa/bb/cc''"]
    by (simp add: scope_part_def rSeparator_def)
  have bad: "isl (SplitFQ ''stores/x1/aa/bb/cc'')"
    using SplitFQ_inverts_FQ [of ?p "''stores/x1/aa/bb/cc''"]
    by (simp add: id_part_def scope_part_def decimal_integer_def is_digit_def byte_def
        rSeparator_def)
  from v fq again few unk bad show ?thesis by simp
qed

text \<open>
  Claim C9. For every valid path, \<^verbatim>\<open>Level\<close> with a negative level returns the whole
  route, with level zero the empty route, and with a level \<open>n \<ge> 1\<close> the first \<open>n\<close>
  segments of the route: a prefix of the route that ends right before a separator or at
  the end of the route.
\<close>

theorem Level_first_segments:
  assumes "IsValid p = None"
  shows "(n < 0 \<longrightarrow> Level p n = Inr (Route p))
       \<and> Level p 0 = Inr []
       \<and> (1 \<le> n \<longrightarrow>
            (\<exists>l. Level p n = Inr l \<and> l = first_segments (nat n) (Route p)
                 \<and> prefix l (Route p)
                 \<and> (l = Route p \<or> Route p ! length l = rSeparator)))"
proof -
  from assms have cnt: "Count (Route p) rSeparator = 2" and len: "8 \<le> length (Route p)"
    by (simp_all add: IsValid_None_iff)
  have neg: "n < 0 \<longrightarrow> Level p n = Inr (Route p)"
    using assms by (simp add: Level_def)
  have zero: "Level p 0 = Inr []"
    using assms len by (simp add: Level_def)
  have pos: "\<exists>l. Level p n = Inr l \<and> l = first_segments (nat n) (Route p)
                 \<and> prefix l (Route p)
                 \<and> (l = Route p \<or> Route p ! length l = rSeparator)" if n: "1 \<le> n"
  proof (cases "n \<ge> int (length (Route p))")
    case True
    then have "length (route_segments (Route p)) \<le> nat n"
      using cnt len by (simp add: length_route_segments)
    then have "first_segments (nat n) (Route p) = Route p"
      by (simp add: first_segments_def join_route_segments)
    moreover have "Level p n = Inr (Route p)"
      using assms True by (simp add: Level_def)
    ultimately show ?thesis by simp
  next
    case False
    then have lv: "Level p n = Inr (Level_loop (Route p) n 0 1)"
      using assms n by (simp add: Level_def)
    have seg: "Level_loop (Route p) n 0 1 = first_segments (nat n) (Route p)"
      using Level_loop_segments [of 0 "Route p" 1 n] n by simp
    from Level_loop_prefix [of "Route p" n 0 1]
    have "prefix (Level_loop (Route p) n 0 1) (Route p)
          \<and> (Level_loop (Route p) n 0 1 = Route p
             \<or> Route p ! length (Level_loop (Route p) n 0 1) = rSeparator)"
      by (auto simp: take_is_prefix min_def)
    then show ?thesis using lv seg by simp
  qed
  from neg zero pos show ?thesis by blast
qed

theorem Level_first_segments_witness:
  "IsValid \<lparr>Route = ''system/smtp/host'', Scope = StoreID, ID = 3\<rparr> = None
   \<and> Level \<lparr>Route = ''system/smtp/host'', Scope = StoreID, ID = 3\<rparr> (- 1) = Inr ''system/smtp/host''
   \<and> Level \<lparr>Route = ''system/smtp/host'', Scope = StoreID, ID = 3\<rparr> 0 = Inr []
   \<and> Level \<lparr>Route = ''system/smtp/host'', Scope = StoreID, ID = 3\<rparr> 2 = Inr ''system/smtp''
   \<and> prefix ''system/smtp'' ''system/smtp/host''
   \<and> ''system/smtp/host'' ! length ''system/smtp'' = rSeparator"
proof -
  let ?p = "\<lparr>Route = ''system/smtp/host'', Scope = StoreID, ID = 3\<rparr>"
  have v: "IsValid ?p = None"
    by (simp add: path_eval)
  have fs: "first_segments 2 ''system/smtp/host'' = ''system/smtp''"
    by (simp add: first_segments_def rSeparator_def numeral_2_eq_2)
  from Level_first_segments [OF v, of "- 1"] Level_first_segments [OF v, of 2] v fs
  show ?thesis by (simp add: rSeparator_def)
qed

section \<open>Claims on the scope permissions\<close>

text \<open>
  Claim C8. \<^verbatim>\<open>Perm.MarshalJSON\<close> returns the bytes \<^verbatim>\<open>null\<close> for the zero \<^verbatim>\<open>Perm\<close>, and for
  \<^verbatim>\<open>Perm.All()\<close> of the zero \<^verbatim>\<open>Perm\<close> the JSON array of the three names Default, Website,
  Store in hierarchy order: an opening bracket, the names in double quotes with commas
  between them, a closing bracket. This holds for every numbering of the scope types
  that respects the hierarchy.
\<close>

theorem Perm_MarshalJSON_null_and_All:
  assumes "hierarchy T"
  shows "Perm_MarshalJSON T 0 = ''null''
       \<and> Perm_MarshalJSON T (Perm_All T 0)
           = [CHR ''['', dquote] @ ''Default'' @ [dquote, CHR '','', dquote] @ ''Website''
             @ [dquote, CHR '','', dquote] @ ''Store'' @ [dquote, CHR '']'']"
  using All_not_zero [OF assms] names_All [OF assms]
  by (simp add: Perm_MarshalJSON_def Perm_Human_eq)

theorem Perm_MarshalJSON_null_and_All_witness:
  "hierarchy types_from_0 \<and> hierarchy types_from_1
   \<and> Perm_All types_from_0 0 = 11 \<and> Perm_All types_from_1 0 = 22
   \<and> Perm_MarshalJSON types_from_0 0 = ''null''
   \<and> Perm_MarshalJSON types_from_0 11
       = [CHR ''['', dquote] @ ''Default'' @ [dquote, CHR '','', dquote] @ ''Website''
         @ [dquote, CHR '','', dquote] @ ''Store'' @ [dquote, CHR '']'']
   \<and> Perm_MarshalJSON types_from_1 22
       = [CHR ''['', dquote] @ ''Default'' @ [dquote, CHR '','', dquote] @ ''Website''
         @ [dquote, CHR '','', dquote] @ ''Store'' @ [dquote, CHR '']'']"
proof -
  have a0: "Perm_All types_from_0 0 = 11" and a1: "Perm_All types_from_1 0 = 22"
    by (simp_all add: Perm_All_def Perm_Set_def types_from_0_def types_from_1_def)
  from Perm_MarshalJSON_null_and_All [OF hierarchy_types(1)]
    Perm_MarshalJSON_null_and_All [OF hierarchy_types(2)] hierarchy_types a0 a1
  show ?thesis by simp
qed

text \<open>
  Claim C10. For every \<^verbatim>\<open>Perm\<close> with the bit of at least one scope type below
  \<^verbatim>\<open>maxType\<close> set, \<^verbatim>\<open>Perm.String\<close> does not panic and returns the names of the set
  scopes, which are the names \<^verbatim>\<open>Perm.Human\<close> lists, joined by commas with no comma at
  the end. On the zero \<^verbatim>\<open>Perm\<close> the buffer stays empty and its truncation to the
  length \<open>-1\<close> panics.
\<close>

theorem Perm_String_joined:
  "(i < maxType T \<and> bit bits i \<longrightarrow>
      Perm_String T bits = Inr (comma_join (set_scope_names T bits)))
   \<and> Perm_Human T bits = set_scope_names T bits
   \<and> Perm_String T 0 = Inl TruncationOutOfRange"
proof -
  have "set_scope_names T bits \<noteq> []" if "i < maxType T" "bit bits i"
    using that by (auto simp: set_scope_names_def filter_empty_conv)
  moreover have "set_scope_names T 0 = []"
    by (simp add: set_scope_names_def)
  ultimately show ?thesis
    by (simp add: Perm_String_eq Perm_Human_eq)
qed

theorem Perm_String_joined_witness:
  "0 < maxType types_from_0 \<and> bit (3 :: Perm) 0
   \<and> Perm_String types_from_0 3 = Inr ''Default,Website''
   \<and> Perm_Human types_from_0 3 = [''Default'', ''Website'']
   \<and> Perm_String types_from_0 0 = Inl TruncationOutOfRange"
proof -
  have b: "bit (3 :: Perm) 0" by simp
  have m: "0 < maxType types_from_0" by (simp add: types_from_0_def)
  have n: "set_scope_names types_from_0 3 = [''Default'', ''Website'']"
    by (simp add: set_scope_names_def types_from_0_def type_names_def upt_rec bit_numeral_rec
        bit_Suc)
  from Perm_String_joined [of 0 types_from_0 3] b m n
  show ?thesis by simp
qed

section \<open>Claims on publish and subscribe\<close>

text \<open>
  Claim C1. The claim: for every level in 1, 2, -1 the delivery loop computes both hashes
  of the published path, the one with the scope prefix and the one of the route alone,
  and a subscriber of a route receives exactly one message when its route is a prefix of
  the path's route and none otherwise. The comments of \<^verbatim>\<open>readMapAndSend\<close> announce the
  two hashes ("including scope and scopeID and the route", "without scope and scopeID and
  route only"), but both are computed by the same call \<^verbatim>\<open>p.Hash(level)\<close>, so the same
  bucket is served twice: a subscriber registered on a fresh service receives two
  messages for every level at which the hash of the path is the hash of its route, and
  never exactly one. The instance subscribes to \<^verbatim>\<open>system\<close> and publishes
  \<^verbatim>\<open>system/smtp/host\<close>: two messages.
\<close>

theorem subscriber_receives_twice:
  assumes "\<not> IsEmpty env r"
  shows "\<exists>s1 s2 w' sent.
           Subscribe env newPubSub r mr = (Inr 1, s1)
           \<and> publish_path env s1 p w = (s2, w', sent)
           \<and> received 1 sent
               = 2 * length (filter (\<lambda>level. Hash env p level = Hash32 env r) [1, 2, - 1])"
proof -
  let ?s1 = "\<lparr>subMap = [(Hash32 env r, [(1, mr)])], subAutoInc = 1\<rparr> :: 'b pubSub"
  have sub: "Subscribe env newPubSub r mr = (Inr 1, ?s1)"
    using assms by (rule Subscribe_fresh)
  obtain s2 w' sent where pub: "publish_path env ?s1 p w = (s2, w', sent)"
    by (cases "publish_path env ?s1 p w")
  have bc: "bucket_count ?s1 h 1 = (if h = Hash32 env r then 1 else 0)" for h
    by (simp add: bucket_count_def)
  have "received 1 sent
        = 2 * length (filter (\<lambda>level. Hash env p level = Hash32 env r) [1, 2, - 1])"
    unfolding publish_path_sent(1) [OF pub, of 1] bc by simp
  with sub pub show ?thesis by blast
qed

theorem subscriber_receives_twice_witness:
  "\<not> IsEmpty route_env ''system''
   \<and> fst (Subscribe route_env newPubSub ''system'' (Returns None)) = Inr 1
   \<and> received 1 (snd (snd (publish_path route_env
        (snd (Subscribe route_env newPubSub ''system'' (Returns None)))
        ''system/smtp/host'' ()))) = 2
   \<and> received 1 (snd (snd (publish_path route_env
        (snd (Subscribe route_env newPubSub ''system'' (Returns None)))
        ''other/kk/vv'' ()))) = 0"
proof -
  have ne: "\<not> IsEmpty route_env ''system''" by (simp add: route_env_simps)
  from subscriber_receives_twice [OF ne, of "Returns None" "''system/smtp/host''" "()"]
  have a: "fst (Subscribe route_env newPubSub ''system'' (Returns None)) = Inr 1
    \<and> received 1 (snd (snd (publish_path route_env
        (snd (Subscribe route_env newPubSub ''system'' (Returns None)))
        ''system/smtp/host'' ()))) = 2"
    using fnv_values by (auto simp: route_env_simps first_segments_examples)
  from subscriber_receives_twice [OF ne, of "Returns None" "''other/kk/vv''" "()"]
  have b: "received 1 (snd (snd (publish_path route_env
        (snd (Subscribe route_env newPubSub ''system'' (Returns None)))
        ''other/kk/vv'' ()))) = 0"
    using fnv_values by (auto simp: route_env_simps first_segments_examples)
  from ne a b show ?thesis by simp
qed

text \<open>
  Claim C5. When the receiver of a subscriber returns an error or panics during the
  delivery of an event, \<^verbatim>\<open>sendMsgRecoverable\<close> returns an error value, the subscriber
  is removed from the map before the next event is handled and receives nothing of it,
  the other subscriptions stay as they are, and every subscriber in a bucket of the
  event is called. The panic ends in \<^verbatim>\<open>sendMsgRecoverable\<close>: \<^verbatim>\<open>publish_path\<close> returns the
  next state for every behaviour of the receivers, and nothing flows back to the sender
  of the path. Subscription ids are taken to be distinct, as \<^verbatim>\<open>Subscribe\<close> makes them.
\<close>

theorem failing_subscriber_evicted:
  assumes "ids_distinct s"
    and "publish_path env s p w = (s', w', sent)"
    and "publish_path env s' p2 w' = (s'', w'', sent2)"
  shows "(fst (sendMsgRecoverable env sid sl p0 w0) \<noteq> None
            \<longleftrightarrow> fst (MessageConfig env sl p0 w0) \<noteq> Returns None)
       \<and> subscriptions s' = filter (\<lambda>x. fst x \<notin> set (failed_ids sent)) (subscriptions s)
       \<and> (i \<in> set (failed_ids sent) \<longrightarrow>
             i \<notin> set (subscription_ids s') \<and> received i sent2 = 0)
       \<and> (level \<in> {1, 2, - 1} \<and> 0 < bucket_count s (Hash env p level) j \<longrightarrow>
             0 < received j sent)"
proof -
  have s': "s' = foldl Unsubscribe s (failed_ids sent)"
    using assms(2) by (rule publish_path_sent(2))
  from foldl_Unsubscribe [OF assms(1), of "failed_ids sent"]
  have subs: "subscriptions s' = filter (\<lambda>x. fst x \<notin> set (failed_ids sent)) (subscriptions s)"
    unfolding s' by simp
  have gone: "i \<notin> set (subscription_ids s') \<and> received i sent2 = 0"
    if "i \<in> set (failed_ids sent)"
  proof -
    from that have notin: "i \<notin> set (subscription_ids s')"
      unfolding subscription_ids_def subs by auto
    then have "bucket_count s' h i = 0" for h by (rule bucket_count_absent)
    then have "received i sent2 = 0"
      using publish_path_sent(1) [OF assms(3), of i] by simp
    with notin show ?thesis by simp
  qed
  have rec: "0 < received j sent"
    if "level \<in> {1, 2, - 1} \<and> 0 < bucket_count s (Hash env p level) j"
    using that publish_path_sent(1) [OF assms(2), of j] by auto
  from subs gone rec show ?thesis
    using sendMsgRecoverable_error [of env sid sl p0 w0] by blast
qed

theorem failing_subscriber_evicted_witness:
  "ids_distinct three_subscribers
   \<and> fst (sendMsgRecoverable route_env 1 (PanicsOther ''boom'') ''system/smtp/host'' ()) \<noteq> None
   \<and> failed_ids (snd (snd (publish_path route_env three_subscribers ''system/smtp/host'' ())))
       = [1, 1, 3, 3]
   \<and> subscriptions (fst (publish_path route_env three_subscribers ''system/smtp/host'' ()))
       = [(2, Returns None)]
   \<and> 0 < received 2 (snd (snd (publish_path route_env three_subscribers ''system/smtp/host'' ())))
   \<and> received 1 (snd (snd (publish_path route_env
         (fst (publish_path route_env three_subscribers ''system/smtp/host'' ()))
         ''system/smtp/host'' ()))) = 0"
proof -
  have d: "ids_distinct three_subscribers"
    by (simp add: ids_distinct_def subscription_ids_def subscriptions_def three_subscribers_def)
  have f: "failed_ids (snd (snd (publish_path route_env three_subscribers ''system/smtp/host'' ())))
       = [1, 1, 3, 3]"
    by (simp add: publish_three failed_ids_def)
  have b: "0 < bucket_count three_subscribers (Hash route_env ''system/smtp/host'' 1) 2"
    by (simp add: bucket_count_def three_subscribers_def hash_levels)
  have m: "fst (MessageConfig route_env (PanicsOther ''boom'') ''system/smtp/host'' ())
           \<noteq> Returns None"
    by (simp add: route_env_simps)
  have e: "subscriptions (fst (publish_path route_env three_subscribers ''system/smtp/host'' ()))
       = [(2, Returns None)]"
    by (simp add: publish_three subscriptions_def)
  from failing_subscriber_evicted [OF d publish_three publish_three_next,
      of 1 "PanicsOther ''boom''" "''system/smtp/host''" "()" 1 1 2]
  have "fst (sendMsgRecoverable route_env 1 (PanicsOther ''boom'') ''system/smtp/host'' ()) \<noteq> None"
    and "received 1 (snd (snd (publish_path route_env
         (fst (publish_path route_env three_subscribers ''system/smtp/host'' ()))
         ''system/smtp/host'' ()))) = 0"
    and "0 < received 2 (snd (snd (publish_path route_env three_subscribers ''system/smtp/host'' ())))"
    using m b f by (simp_all add: publish_three publish_three_next)
  with d f e show ?thesis by simp
qed

section \<open>Claims on the SQL table backend\<close>

text \<open>
  Claim C4. The claim: \<^verbatim>\<open>Value\<close> of a key that is absent from the store returns an error
  of kind NotFound, and the SQL table backend does so whenever the queried row does not
  exist. The comment of \<^verbatim>\<open>DBStorage.Value\<close> says "Error behaviour: NotFound", but the
  method returns \<^verbatim>\<open>errKeyNotFound\<close> only after a successful \<^verbatim>\<open>Scan\<close> of a \<^verbatim>\<open>NULL\<close> value.
  When no row matches, \<^verbatim>\<open>Scan\<close> fails with \<^verbatim>\<open>sql.ErrNoRows\<close> and \<^verbatim>\<open>Value\<close> returns that
  error wrapped by \<^verbatim>\<open>errors.Wrapf\<close>, which is not of kind NotFound. The instance reads a
  valid key from an empty table.
\<close>

theorem Value_absent_row_not_NotFound:
  assumes "Read_Stmt_error dbs = None"
    and "IsValid key = None"
    and "table dbs (FromScope (Scope key), sint (ID key), Route key) = None"
  shows "Value dbs key = Inl (Wrapf_QueryRow ErrNoRows)
       \<and> \<not> NotFound_Match (Wrapf_QueryRow ErrNoRows)"
  using assms by (simp add: Value_def Level_def QueryRow_Scan_def)

theorem Value_absent_row_not_NotFound_witness:
  "Value empty_table \<lparr>Route = ''system/smtp/host'', Scope = StoreID, ID = 3\<rparr>
     = Inl (Wrapf_QueryRow ErrNoRows)
   \<and> NotFound_Match (Wrapf_QueryRow ErrNoRows) = False"
proof -
  have "IsValid \<lparr>Route = ''system/smtp/host'', Scope = StoreID, ID = 3\<rparr> = None"
    by (simp add: path_eval)
  from Value_absent_row_not_NotFound [of empty_table, OF _ this]
  show ?thesis by (simp add: empty_table_def)
qed

end
